theory Spec2Isabelle
  imports Main "HOL-Library.Word" "HOL-Library.AList"
begin

section \<open>Values, nodes and the heap\<close>

text \<open>
  A shallow embedding of \<^verbatim>\<open>gojson.go\<close>. A Go \<^verbatim>\<open>interface{}\<close> is a value of type
  \<open>val\<close>, one constructor per dynamic type that the source switches on. Maps, slices
  and \<^verbatim>\<open>*GoJson\<close> are references in Go, so the value only holds an address (for a
  slice: the header with array, offset, length and capacity) and the contents live in
  the heap. \<^verbatim>\<open>map[string]interface{}\<close> and \<^verbatim>\<open>Dict\<close> are different dynamic types over the
  same kind of object, and so are \<^verbatim>\<open>[]interface{}\<close> and \<^verbatim>\<open>List\<close>.

  Go's \<^verbatim>\<open>int\<close> is taken as 64 bits wide, as the source assumes in \<^verbatim>\<open>ToInt\<close>. Floating
  point numbers are kept as their bit patterns; what the language does with them
  (conversion, parsing) is a parameter of the functions that need it. Typed nil maps
  and typed nil node pointers stored in an interface are not part of the model.
\<close>

type_synonym addr = nat
type_synonym float32 = "32 word"
type_synonym float64 = "64 word"

datatype slice = Slice (sarr: addr) (soff: nat) (slen: nat) (scap: nat)

datatype val =
    VNil
  | VBool bool
  | VNumber string
  | VInt "64 word"
  | VInt8 "8 word"
  | VInt16 "16 word"
  | VInt32 "32 word"
  | VInt64 "64 word"
  | VUint "64 word"
  | VUint8 "8 word"
  | VUint16 "16 word"
  | VUint32 "32 word"
  | VUint64 "64 word"
  | VFloat32 float32
  | VFloat64 float64
  | VString string
  | VBytes string
  | VMap addr
  | VDict addr
  | VSlice slice
  | VList slice
  | VNode addr

text \<open>The struct \<^verbatim>\<open>GoJson\<close>; the embedded lock is never used by the source.\<close>

record GoJson =
  prev :: "addr option"
  prevKey :: string
  prevIndex :: int
  data :: val

text \<open>
  The heap: map objects as association lists in some iteration order, backing arrays
  of slices, node objects, and the first address not yet allocated.
\<close>

record heap =
  maps :: "addr \<Rightarrow> (string \<times> val) list"
  arrays :: "addr \<Rightarrow> val list"
  nodes :: "addr \<Rightarrow> GoJson"
  brk :: addr

text \<open>Run-time panics (the program aborts) and returned \<^verbatim>\<open>error\<close> values.\<close>

datatype panic = IndexOutOfRange | SliceBoundsOutOfRange | InputInvalid

datatype error =
    NotInt | NotFloat64 | Overflowed
  | CannotConvertInt | CannotConvertFloat
  | NumSyntax | NumRange

definition new_node :: "heap \<Rightarrow> GoJson \<Rightarrow> addr \<times> heap" where
  "new_node h n = (brk h, h\<lparr>nodes := (nodes h)(brk h := n), brk := Suc (brk h)\<rparr>)"

definition new_map :: "heap \<Rightarrow> (string \<times> val) list \<Rightarrow> addr \<times> heap" where
  "new_map h m = (brk h, h\<lparr>maps := (maps h)(brk h := m), brk := Suc (brk h)\<rparr>)"

definition new_array :: "heap \<Rightarrow> val list \<Rightarrow> addr \<times> heap" where
  "new_array h xs = (brk h, h\<lparr>arrays := (arrays h)(brk h := xs), brk := Suc (brk h)\<rparr>)"

text \<open>The elements a slice header shows: \<^verbatim>\<open>v[0], ..., v[len(v)-1]\<close>.\<close>

definition elems :: "heap \<Rightarrow> slice \<Rightarrow> val list" where
  "elems h s = take (slen s) (drop (soff s) (arrays h (sarr s)))"

text \<open>The invariant the Go run time keeps for every slice header.\<close>

definition slice_ok :: "heap \<Rightarrow> slice \<Rightarrow> bool" where
  "slice_ok h s = (sarr s < brk h \<and> slen s \<le> scap s
     \<and> soff s + scap s \<le> length (arrays h (sarr s)))"

section \<open>Coercion helpers\<close>

text \<open>
  \<^verbatim>\<open>strconv.ParseInt(s, 10, 64)\<close>, which is also what \<^verbatim>\<open>strconv.Atoi\<close> and
  \<^verbatim>\<open>json.Number.Int64\<close> compute on a 64-bit platform: an optional sign, then one or
  more decimal digits, and the value must fit a signed 64-bit integer.
\<close>

definition is_digit :: "char \<Rightarrow> bool" where
  "is_digit c = (c \<in> set ''0123456789'')"

definition digit_val :: "char \<Rightarrow> nat" where
  "digit_val c = of_char c - 48"

definition digits_val :: "string \<Rightarrow> nat" where
  "digits_val ds = foldl (\<lambda>n c. n * 10 + digit_val c) 0 ds"

definition ParseInt :: "string \<Rightarrow> error + 64 word" where
  "ParseInt s =
     (let neg = (s \<noteq> [] \<and> hd s = CHR ''-'');
          ds = (if s \<noteq> [] \<and> (hd s = CHR ''-'' \<or> hd s = CHR ''+'') then tl s else s)
      in if ds = [] \<or> \<not> list_all is_digit ds then Inl NumSyntax
         else let v = (if neg then - int (digits_val ds) else int (digits_val ds))
              in if v < - (2 ^ 63) \<or> 2 ^ 63 \<le> v then Inl NumRange
                 else Inr (word_of_int v))"

definition Atoi :: "string \<Rightarrow> error + 64 word" where
  "Atoi s = ParseInt s"

text \<open>What the language and \<^verbatim>\<open>strconv\<close> do with floating point numbers.\<close>

record floats =
  float64_of_int :: "64 word \<Rightarrow> float64"
  float64_of_float32 :: "float32 \<Rightarrow> float64"
  int_of_float32 :: "float32 \<Rightarrow> 64 word"
  int_of_float64 :: "float64 \<Rightarrow> 64 word"
  ParseFloat :: "string \<Rightarrow> float64 option"

definition ToInt :: "floats \<Rightarrow> val \<Rightarrow> error + 64 word" where
  "ToInt fl intObj =
     (case intObj of
        VNumber v \<Rightarrow> ParseInt v
      | VInt v \<Rightarrow> Inr v
      | VInt8 v \<Rightarrow> Inr (scast v)
      | VInt16 v \<Rightarrow> Inr (scast v)
      | VInt32 v \<Rightarrow> Inr (scast v)
      | VInt64 v \<Rightarrow> Inr v
      | VUint v \<Rightarrow> Inr v
      | VUint8 v \<Rightarrow> Inr (ucast v)
      | VUint16 v \<Rightarrow> Inr (ucast v)
      | VUint32 v \<Rightarrow> Inr (ucast v)
      | VUint64 v \<Rightarrow> (if v > 0x7FFFFFFFFFFFFFFF then Inl Overflowed else Inr v)
      | VFloat32 v \<Rightarrow> Inr (int_of_float32 fl v)
      | VFloat64 v \<Rightarrow> Inr (int_of_float64 fl v)
      | VString v \<Rightarrow>
          (let strv = (if CHR ''.'' \<in> set v then takeWhile (\<lambda>c. c \<noteq> CHR ''.'') v else v)
           in if strv = [] then Inr 0
              else (case Atoi strv of Inr intv \<Rightarrow> Inr intv | Inl err \<Rightarrow> Inl CannotConvertInt))
      | _ \<Rightarrow> Inl CannotConvertInt)"

definition ToFloat64 :: "floats \<Rightarrow> val \<Rightarrow> error + float64" where
  "ToFloat64 fl item =
     (let viaInt = (case ToInt fl item of Inl err \<Rightarrow> Inl err
                    | Inr intVal \<Rightarrow> Inr (float64_of_int fl intVal))
      in case item of
        VNumber v \<Rightarrow> (case ParseFloat fl v of Some f \<Rightarrow> Inr f | None \<Rightarrow> Inl NumSyntax)
      | VInt v \<Rightarrow> viaInt
      | VInt8 v \<Rightarrow> viaInt
      | VInt16 v \<Rightarrow> viaInt
      | VInt64 v \<Rightarrow> viaInt
      | VUint v \<Rightarrow> viaInt
      | VUint8 v \<Rightarrow> viaInt
      | VUint16 v \<Rightarrow> viaInt
      | VUint32 v \<Rightarrow> viaInt
      | VUint64 v \<Rightarrow> viaInt
      | VFloat64 v \<Rightarrow> Inr v
      | VFloat32 v \<Rightarrow> Inr (float64_of_float32 fl v)
      | VString v \<Rightarrow> (case ParseFloat fl v of Some floatNum \<Rightarrow> Inr floatNum
                      | None \<Rightarrow> Inl CannotConvertFloat)
      | _ \<Rightarrow> Inl CannotConvertFloat)"

definition GoJson_Int :: "floats \<Rightarrow> GoJson \<Rightarrow> error + 64 word" where
  "GoJson_Int fl j = (let v = data j in if v = VNil then Inl NotInt else ToInt fl v)"

definition Float64 :: "floats \<Rightarrow> GoJson \<Rightarrow> error + float64" where
  "Float64 fl j = (let v = data j in if v = VNil then Inl NotFloat64 else ToFloat64 fl v)"

section \<open>Container accessors\<close>

text \<open>Go's \<^verbatim>\<open>v[key]\<close> on a map: the zero value, a nil interface, when the key is absent.\<close>

definition map_index :: "(string \<times> val) list \<Rightarrow> string \<Rightarrow> val" where
  "map_index m key = (case map_of m key of Some v \<Rightarrow> v | None \<Rightarrow> VNil)"

definition getMap :: "heap \<Rightarrow> string \<Rightarrow> val \<Rightarrow> val \<times> bool" where
  "getMap h key mapBody =
     (case mapBody of
        VMap a \<Rightarrow> (map_index (maps h a) key, True)
      | VDict a \<Rightarrow> (map_index (maps h a) key, True)
      | _ \<Rightarrow> (VNil, False))"

definition Value :: "GoJson \<Rightarrow> val" where
  "Value j = data j"

text \<open>
  The first lines of \<^verbatim>\<open>setMap\<close>, \<^verbatim>\<open>appendSlice\<close>, \<^verbatim>\<open>setSlice\<close>, \<^verbatim>\<open>insertSlice\<close> and
  \<^verbatim>\<open>Append\<close>: a \<^verbatim>\<open>*GoJson\<close> argument is replaced by its \<^verbatim>\<open>Value()\<close>.
\<close>

definition unwrap :: "heap \<Rightarrow> val \<Rightarrow> val" where
  "unwrap h d = (case d of VNode a \<Rightarrow> Value (nodes h a) | _ \<Rightarrow> d)"

definition setMap :: "heap \<Rightarrow> string \<Rightarrow> val \<Rightarrow> val \<Rightarrow> bool \<times> heap" where
  "setMap h key mapBody d =
     (let v = unwrap h d
      in case mapBody of
           VMap a \<Rightarrow> (True, h\<lparr>maps := (maps h)(a := AList.update key v (maps h a))\<rparr>)
         | VDict a \<Rightarrow> (True, h\<lparr>maps := (maps h)(a := AList.update key v (maps h a))\<rparr>)
         | _ \<Rightarrow> (False, h))"

text \<open>Go's \<^verbatim>\<open>v[key]\<close> on a slice: a run-time panic unless \<^verbatim>\<open>0 <= key < len(v)\<close>.\<close>

definition slice_index :: "heap \<Rightarrow> slice \<Rightarrow> int \<Rightarrow> panic + val" where
  "slice_index h s i =
     (if 0 \<le> i \<and> i < int (slen s) then Inr (arrays h (sarr s) ! (soff s + nat i))
      else Inl IndexOutOfRange)"

definition getSlice :: "heap \<Rightarrow> int \<Rightarrow> val \<Rightarrow> panic + (val \<times> bool)" where
  "getSlice h key sliceBody =
     (case sliceBody of
        VSlice s \<Rightarrow> (case slice_index h s key of Inl p \<Rightarrow> Inl p | Inr v \<Rightarrow> Inr (v, True))
      | VList s \<Rightarrow> (case slice_index h s key of Inl p \<Rightarrow> Inl p | Inr v \<Rightarrow> Inr (v, True))
      | _ \<Rightarrow> Inr (VNil, False))"

text \<open>
  The builtin \<^verbatim>\<open>append(s, vs...)\<close>. With room left in the backing array the new
  elements are written in place, behind the \<^verbatim>\<open>len(s)\<close> elements of \<open>s\<close>, and every
  other header on that array sees them. Otherwise a new array is allocated; how much
  larger than needed it is, is the run time's choice \<open>gc\<close> (old capacity, needed length).
\<close>

definition write_at :: "nat \<Rightarrow> val list \<Rightarrow> val list \<Rightarrow> val list" where
  "write_at k vs xs = take k xs @ vs @ drop (k + length vs) xs"

definition go_append :: "(nat \<Rightarrow> nat \<Rightarrow> nat) \<Rightarrow> heap \<Rightarrow> slice \<Rightarrow> val list \<Rightarrow> slice \<times> heap" where
  "go_append gc h s vs =
     (let n = slen s + length vs
      in if n \<le> scap s then
           (Slice (sarr s) (soff s) n (scap s),
            h\<lparr>arrays := (arrays h)(sarr s :=
                 write_at (soff s + slen s) vs (arrays h (sarr s)))\<rparr>)
         else
           (let c = max n (gc (scap s) n)
            in case new_array h (elems h s @ vs @ replicate (c - n) VNil) of
                 (a, h') \<Rightarrow> (Slice a 0 n c, h')))"

definition appendSlice ::
  "(nat \<Rightarrow> nat \<Rightarrow> nat) \<Rightarrow> heap \<Rightarrow> val \<Rightarrow> val \<Rightarrow> (val \<times> bool) \<times> heap" where
  "appendSlice gc h sliceBody d =
     (let v = unwrap h d
      in case sliceBody of
           VSlice s \<Rightarrow> (case go_append gc h s [v] of (s', h') \<Rightarrow> ((VSlice s', True), h'))
         | VList s \<Rightarrow> (case go_append gc h s [v] of (s', h') \<Rightarrow> ((VList s', True), h'))
         | _ \<Rightarrow> ((VNil, False), h))"

text \<open>Go's \<^verbatim>\<open>v[index] = val\<close> on a slice.\<close>

definition slice_store :: "heap \<Rightarrow> slice \<Rightarrow> int \<Rightarrow> val \<Rightarrow> panic + heap" where
  "slice_store h s i v =
     (if 0 \<le> i \<and> i < int (slen s)
      then Inr (h\<lparr>arrays := (arrays h)(sarr s := (arrays h (sarr s))[soff s + nat i := v])\<rparr>)
      else Inl IndexOutOfRange)"

definition setSlice :: "heap \<Rightarrow> int \<Rightarrow> val \<Rightarrow> val \<Rightarrow> panic + (bool \<times> heap)" where
  "setSlice h index sliceBody d =
     (let v = unwrap h d
      in case sliceBody of
           VSlice s \<Rightarrow> (case slice_store h s index v of Inl p \<Rightarrow> Inl p | Inr h' \<Rightarrow> Inr (True, h'))
         | VList s \<Rightarrow> (case slice_store h s index v of Inl p \<Rightarrow> Inl p | Inr h' \<Rightarrow> Inr (True, h'))
         | _ \<Rightarrow> Inr (False, h))"

text \<open>
  The three statements of \<^verbatim>\<open>insertSlice\<close> on a slice \<open>s\<close>:
  \<^verbatim>\<open>rear := append([]interface{}{}, v[index:]...)\<close>,
  \<^verbatim>\<open>v = append(v[0:index], val)\<close> and \<^verbatim>\<open>append(v, rear...)\<close>. The slice expressions
  panic unless \<^verbatim>\<open>0 <= index <= len(v)\<close>. The empty literal has capacity 0, so its
  array is never read or written.
\<close>

definition insert_elems ::
  "(nat \<Rightarrow> nat \<Rightarrow> nat) \<Rightarrow> heap \<Rightarrow> slice \<Rightarrow> int \<Rightarrow> val \<Rightarrow> panic + (slice \<times> heap)" where
  "insert_elems gc h s index v =
     (if 0 \<le> index \<and> index \<le> int (slen s) then
        (let i = nat index
         in case go_append gc h (Slice 0 0 0 0)
                   (elems h (Slice (sarr s) (soff s + i) (slen s - i) (scap s - i))) of
              (rear, h1) \<Rightarrow>
                (case go_append gc h1 (Slice (sarr s) (soff s) i (scap s)) [v] of
                   (v1, h2) \<Rightarrow> Inr (go_append gc h2 v1 (elems h2 rear))))
      else Inl SliceBoundsOutOfRange)"

definition insertSlice ::
  "(nat \<Rightarrow> nat \<Rightarrow> nat) \<Rightarrow> heap \<Rightarrow> int \<Rightarrow> val \<Rightarrow> val \<Rightarrow> panic + ((val \<times> bool) \<times> heap)" where
  "insertSlice gc h index sliceBody d =
     (let v = unwrap h d
      in case sliceBody of
           VSlice s \<Rightarrow> (case insert_elems gc h s index v of Inl p \<Rightarrow> Inl p
                        | Inr (r, h') \<Rightarrow> Inr ((VSlice r, True), h'))
         | VList s \<Rightarrow> (case insert_elems gc h s index v of Inl p \<Rightarrow> Inl p
                       | Inr (r, h') \<Rightarrow> Inr ((VList r, True), h'))
         | _ \<Rightarrow> Inr ((VNil, False), h))"

section \<open>The node operations\<close>

text \<open>
  A method takes the receiver's address \<open>ja\<close> where it creates a child pointing back to
  the receiver or mutates it, and the node itself where it only reads \<^verbatim>\<open>j.data\<close>. A
  method that returns \<^verbatim>\<open>j\<close> returns \<open>ja\<close> with the new heap.
\<close>

definition Get :: "heap \<Rightarrow> addr \<Rightarrow> string \<Rightarrow> addr \<times> heap" where
  "Get h ja key =
     (case getMap h key (data (nodes h ja)) of
        (m, ok) \<Rightarrow>
          if \<not> ok then new_node h \<lparr>prev = Some ja, prevKey = key, prevIndex = 0, data = VNil\<rparr>
          else new_node h \<lparr>prev = Some ja, prevKey = key, prevIndex = 0, data = m\<rparr>)"

definition Keys :: "heap \<Rightarrow> GoJson \<Rightarrow> panic + string list" where
  "Keys h j =
     (if data j = VNil then Inr []
      else case data j of
             VMap a \<Rightarrow> Inr (map fst (maps h a))
           | _ \<Rightarrow> Inl InputInvalid)"

definition IsNil :: "GoJson \<Rightarrow> bool" where
  "IsNil j = (if data j = VNil then True else False)"

definition IsSlice :: "GoJson \<Rightarrow> bool" where
  "IsSlice j = (case data j of VList s \<Rightarrow> True | VSlice s \<Rightarrow> True | _ \<Rightarrow> False)"

definition IsMap :: "GoJson \<Rightarrow> bool" where
  "IsMap j = (case data j of VDict a \<Rightarrow> True | VMap a \<Rightarrow> True | _ \<Rightarrow> False)"

definition Len :: "GoJson \<Rightarrow> nat" where
  "Len j = (case data j of VSlice s \<Rightarrow> slen s | VList s \<Rightarrow> slen s | _ \<Rightarrow> 0)"

definition Index :: "heap \<Rightarrow> addr \<Rightarrow> int \<Rightarrow> panic + (addr \<times> heap)" where
  "Index h ja key =
     (case getSlice h key (data (nodes h ja)) of
        Inl p \<Rightarrow> Inl p
      | Inr (v, ok) \<Rightarrow>
          if \<not> ok then Inr (new_node h \<lparr>prev = Some ja, prevKey = [], prevIndex = key, data = VNil\<rparr>)
          else Inr (new_node h \<lparr>prev = Some ja, prevKey = [], prevIndex = key, data = v\<rparr>))"

text \<open>The key of \<^verbatim>\<open>Set\<close> is an \<^verbatim>\<open>interface{}\<close>; only a string and an int are acted on.\<close>

datatype key = KString string | KInt int | KOther

definition Set :: "heap \<Rightarrow> addr \<Rightarrow> key \<Rightarrow> val \<Rightarrow> panic + (addr \<times> heap)" where
  "Set h ja k v =
     (case k of
        KString s \<Rightarrow>
          (case setMap h s (data (nodes h ja)) v of
             (ok, h') \<Rightarrow> if \<not> ok then Inr (ja, h') else Inr (ja, h'))
      | KInt i \<Rightarrow>
          (case setSlice h i (data (nodes h ja)) v of
             Inl p \<Rightarrow> Inl p
           | Inr (ok, h') \<Rightarrow> if \<not> ok then Inr (ja, h') else Inr (ja, h'))
      | KOther \<Rightarrow> Inr (ja, h))"

definition maintainParent :: "heap \<Rightarrow> addr \<Rightarrow> panic + heap" where
  "maintainParent h child =
     (case prev (nodes h child) of
        None \<Rightarrow> Inr h
      | Some p \<Rightarrow>
          (case Value (nodes h p) of
             VMap a \<Rightarrow>
               (case Set h p (KString (prevKey (nodes h child))) (VNode child) of
                  Inl e \<Rightarrow> Inl e | Inr (r, h') \<Rightarrow> Inr h')
           | VSlice s \<Rightarrow>
               (case Set h p (KInt (prevIndex (nodes h child))) (VNode child) of
                  Inl e \<Rightarrow> Inl e | Inr (r, h') \<Rightarrow> Inr h')
           | _ \<Rightarrow> Inr h))"

definition set_data :: "heap \<Rightarrow> addr \<Rightarrow> val \<Rightarrow> heap" where
  "set_data h ja d = h\<lparr>nodes := (nodes h)(ja := (nodes h ja)\<lparr>data := d\<rparr>)\<rparr>"

definition Append ::
  "(nat \<Rightarrow> nat \<Rightarrow> nat) \<Rightarrow> heap \<Rightarrow> addr \<Rightarrow> val \<Rightarrow> panic + (addr \<times> heap)" where
  "Append gc h ja vl =
     (let v = (case vl of VNode a \<Rightarrow> Value (nodes h a) | _ \<Rightarrow> vl)
      in case appendSlice gc h (data (nodes h ja)) v of
           ((d, ok), h1) \<Rightarrow>
             if \<not> ok then Inr (ja, h)
             else (case maintainParent (set_data h1 ja d) ja of
                     Inl p \<Rightarrow> Inl p
                   | Inr h2 \<Rightarrow> Inr (ja, h2)))"

definition Insert ::
  "(nat \<Rightarrow> nat \<Rightarrow> nat) \<Rightarrow> heap \<Rightarrow> addr \<Rightarrow> int \<Rightarrow> val \<Rightarrow> panic + (addr \<times> heap)" where
  "Insert gc h ja index vl =
     (case insertSlice gc h index (data (nodes h ja)) vl of
        Inl p \<Rightarrow> Inl p
      | Inr ((v, ok), h1) \<Rightarrow>
          if \<not> ok then Inr (ja, h)
          else (case maintainParent (set_data h1 ja v) ja of
                  Inl p \<Rightarrow> Inl p
                | Inr h2 \<Rightarrow> Inr (ja, h2)))"

definition Remove :: "heap \<Rightarrow> addr \<Rightarrow> key \<Rightarrow> addr \<times> heap" where
  "Remove h ja k =
     (case k of
        KString keyVal \<Rightarrow>
          (if IsMap (nodes h ja) then
             (case data (nodes h ja) of
                VMap a \<Rightarrow> (ja, h\<lparr>maps := (maps h)(a := AList.delete keyVal (maps h a))\<rparr>)
              | VDict a \<Rightarrow> (ja, h\<lparr>maps := (maps h)(a := AList.delete keyVal (maps h a))\<rparr>)
              | _ \<Rightarrow> (ja, h))
           else (ja, h))
      | _ \<Rightarrow> (ja, h))"

section \<open>Construction\<close>

text \<open>
  The JSON decoder is an external library: \<open>dec h text\<close> is \<open>None\<close> when the text is
  not valid JSON, and otherwise the decoded value with the heap that holds its
  containers. \<^verbatim>\<open>&GoJson{}\<close> is the node with no parent and a nil value.
\<close>

type_synonym decoder = "heap \<Rightarrow> string \<Rightarrow> (val \<times> heap) option"

definition empty_GoJson :: GoJson where
  "empty_GoJson = \<lparr>prev = None, prevKey = [], prevIndex = 0, data = VNil\<rparr>"

definition decodeJson :: "decoder \<Rightarrow> heap \<Rightarrow> string \<Rightarrow> (addr \<times> heap) option" where
  "decodeJson dec h r =
     (case dec h r of
        None \<Rightarrow> None
      | Some (f, h') \<Rightarrow> Some (new_node h' (empty_GoJson\<lparr>data := f\<rparr>)))"

definition NewJsonFromBytes :: "decoder \<Rightarrow> heap \<Rightarrow> string \<Rightarrow> addr \<times> heap" where
  "NewJsonFromBytes dec h b =
     (case decodeJson dec h b of None \<Rightarrow> new_node h empty_GoJson | Some js \<Rightarrow> js)"

definition NewJsonFromString :: "decoder \<Rightarrow> heap \<Rightarrow> string \<Rightarrow> addr \<times> heap" where
  "NewJsonFromString dec h str =
     (case decodeJson dec h str of None \<Rightarrow> new_node h empty_GoJson | Some js \<Rightarrow> js)"

definition NewJsonFromData :: "heap \<Rightarrow> val \<Rightarrow> addr \<times> heap" where
  "NewJsonFromData h d = new_node h (empty_GoJson\<lparr>data := d\<rparr>)"

definition NewJson :: "decoder \<Rightarrow> heap \<Rightarrow> val \<Rightarrow> addr \<times> heap" where
  "NewJson dec h d =
     (case d of
        VString v \<Rightarrow> NewJsonFromString dec h v
      | VBytes v \<Rightarrow> NewJsonFromBytes dec h v
      | _ \<Rightarrow> NewJsonFromData h d)"

section \<open>The rebuilding pass of Clone and ShortNiceJson\<close>

definition handlerString :: "string \<Rightarrow> bool \<Rightarrow> string" where
  "handlerString js cutLongStr =
     (if cutLongStr \<and> length js > 120 then take 120 js @ ''......'' else js)"

text \<open>A \<^verbatim>\<open>for ... range\<close> loop whose body may fail to return.\<close>

fun range_loop :: "('a \<Rightarrow> 's \<Rightarrow> 's option) \<Rightarrow> 'a list \<Rightarrow> 's \<Rightarrow> 's option" where
  "range_loop body [] st = Some st"
| "range_loop body (x # xs) st =
     (case body x st of None \<Rightarrow> None | Some st' \<Rightarrow> range_loop body xs st')"

text \<open>
  \<^verbatim>\<open>handlerVal\<close>, \<^verbatim>\<open>handlerMap\<close> and \<^verbatim>\<open>handlerSlice\<close> call each other as deep as the
  value is nested, and without end on a value that contains itself. The first
  argument bounds the depth of calls; \<open>None\<close> says that the bound was too small. The
  state of the map loop is the heap, that of the slice loop the variable \<^verbatim>\<open>ret\<close> and
  the heap. The map loop visits the entries in the order of the association list;
  the slice loop reads \<^verbatim>\<open>v[i]\<close> when it gets there.
\<close>

fun handlerVal ::
      "nat \<Rightarrow> (nat \<Rightarrow> nat \<Rightarrow> nat) \<Rightarrow> heap \<Rightarrow> val \<Rightarrow> bool \<Rightarrow> (val \<times> heap) option"
  and handlerMap ::
      "nat \<Rightarrow> (nat \<Rightarrow> nat \<Rightarrow> nat) \<Rightarrow> heap \<Rightarrow> val \<Rightarrow> bool \<Rightarrow> (addr \<times> heap) option"
  and handlerSlice ::
      "nat \<Rightarrow> (nat \<Rightarrow> nat \<Rightarrow> nat) \<Rightarrow> heap \<Rightarrow> val \<Rightarrow> bool \<Rightarrow> (slice \<times> heap) option"
where
  "handlerVal 0 gc h vl cutLongStr = None"
| "handlerVal (Suc n) gc h vl cutLongStr =
     (case vl of
        VDict a \<Rightarrow> (case handlerMap n gc h vl cutLongStr of
                      None \<Rightarrow> None | Some (r, h') \<Rightarrow> Some (VDict r, h'))
      | VMap a \<Rightarrow> (case handlerMap n gc h vl cutLongStr of
                     None \<Rightarrow> None | Some (r, h') \<Rightarrow> Some (VDict r, h'))
      | VList s \<Rightarrow> (case handlerSlice n gc h vl cutLongStr of
                      None \<Rightarrow> None | Some (r, h') \<Rightarrow> Some (VList r, h'))
      | VSlice s \<Rightarrow> (case handlerSlice n gc h vl cutLongStr of
                       None \<Rightarrow> None | Some (r, h') \<Rightarrow> Some (VList r, h'))
      | VString valV \<Rightarrow> Some (VString (handlerString valV cutLongStr), h)
      | _ \<Rightarrow> Some (vl, h))"
| "handlerMap 0 gc h js cutLongStr = None"
| "handlerMap (Suc n) gc h js cutLongStr =
     (case new_map h [] of
        (ret, h0) \<Rightarrow>
          (let body = (\<lambda>(key, v) h1.
                 case handlerVal n gc h1 v cutLongStr of
                   None \<Rightarrow> None
                 | Some (v', h2) \<Rightarrow>
                     Some (h2\<lparr>maps := (maps h2)(ret := AList.update key v' (maps h2 ret))\<rparr>))
           in case js of
                VDict a \<Rightarrow> map_option (Pair ret) (range_loop body (maps h0 a) h0)
              | VMap a \<Rightarrow> map_option (Pair ret) (range_loop body (maps h0 a) h0)
              | _ \<Rightarrow> Some (ret, h0)))"
| "handlerSlice 0 gc h js cutLongStr = None"
| "handlerSlice (Suc n) gc h js cutLongStr =
     (case new_array h [] of
        (a0, h0) \<Rightarrow>
          (let body = (\<lambda>s i (ret, h1).
                 case handlerVal n gc h1 (arrays h1 (sarr s) ! (soff s + i)) cutLongStr of
                   None \<Rightarrow> None
                 | Some (v', h2) \<Rightarrow> Some (go_append gc h2 ret [v']))
           in case js of
                VList s \<Rightarrow> range_loop (body s) [0 ..< slen s] (Slice a0 0 0 0, h0)
              | VSlice s \<Rightarrow> range_loop (body s) [0 ..< slen s] (Slice a0 0 0 0, h0)
              | _ \<Rightarrow> Some (Slice a0 0 0 0, h0)))"

definition ShortNiceJson ::
  "decoder \<Rightarrow> (nat \<Rightarrow> nat \<Rightarrow> nat) \<Rightarrow> nat \<Rightarrow> heap \<Rightarrow> GoJson \<Rightarrow> (addr \<times> heap) option" where
  "ShortNiceJson dec gc fuel h j =
     (let cutLongStr = True
      in if IsSlice j then
           (case handlerSlice fuel gc h (data j) cutLongStr of
              None \<Rightarrow> None | Some (r, h') \<Rightarrow> Some (NewJson dec h' (VList r)))
         else if IsMap j then
           (case handlerMap fuel gc h (data j) cutLongStr of
              None \<Rightarrow> None | Some (r, h') \<Rightarrow> Some (NewJson dec h' (VDict r)))
         else Some (NewJson dec h (data j)))"

definition Clone ::
  "decoder \<Rightarrow> (nat \<Rightarrow> nat \<Rightarrow> nat) \<Rightarrow> nat \<Rightarrow> heap \<Rightarrow> GoJson \<Rightarrow> (addr \<times> heap) option" where
  "Clone dec gc fuel h j =
     (let cutLongStr = False
      in if IsSlice j then
           (case handlerSlice fuel gc h (data j) cutLongStr of
              None \<Rightarrow> None | Some (r, h') \<Rightarrow> Some (NewJson dec h' (VList r)))
         else if IsMap j then
           (case handlerMap fuel gc h (data j) cutLongStr of
              None \<Rightarrow> None | Some (r, h') \<Rightarrow> Some (NewJson dec h' (VDict r)))
         else Some (NewJson dec h (data j)))"

section \<open>Shapes and example documents\<close>

text \<open>The slice header of a sequence-shaped value, the map address of a mapping-shaped one.\<close>

definition seq_of :: "val \<Rightarrow> slice option" where
  "seq_of v = (case v of VSlice s \<Rightarrow> Some s | VList s \<Rightarrow> Some s | _ \<Rightarrow> None)"

definition dict_of :: "val \<Rightarrow> addr option" where
  "dict_of v = (case v of VMap a \<Rightarrow> Some a | VDict a \<Rightarrow> Some a | _ \<Rightarrow> None)"

text \<open>The two dynamic types for which \<^verbatim>\<open>maintainParent\<close> writes back.\<close>

definition is_raw :: "val \<Rightarrow> bool" where
  "is_raw v = (case v of VMap a \<Rightarrow> True | VSlice s \<Rightarrow> True | _ \<Rightarrow> False)"

text \<open>
  What the parent's container holds under the key or index that the child \<open>c\<close>
  remembers, read through the parent's current value.
\<close>

definition parent_slot :: "heap \<Rightarrow> addr \<Rightarrow> val option" where
  "parent_slot h c =
     (case prev (nodes h c) of
        None \<Rightarrow> None
      | Some p \<Rightarrow>
          (case data (nodes h p) of
             VMap a \<Rightarrow> map_of (maps h a) (prevKey (nodes h c))
           | VDict a \<Rightarrow> map_of (maps h a) (prevKey (nodes h c))
           | VSlice ps \<Rightarrow> (case slice_index h ps (prevIndex (nodes h c)) of
                            Inr v \<Rightarrow> Some v | Inl e \<Rightarrow> None)
           | VList ps \<Rightarrow> (case slice_index h ps (prevIndex (nodes h c)) of
                           Inr v \<Rightarrow> Some v | Inl e \<Rightarrow> None)
           | _ \<Rightarrow> None))"

text \<open>
  The node \<open>ja\<close> with the sequence \<open>s\<close> either has no parent, or its parent is not a
  raw slice, or the parent is a raw slice on another backing array than \<open>s\<close> and the
  remembered index lies inside it. Documents built by the decoder and navigated with
  \<^verbatim>\<open>Get\<close> and \<^verbatim>\<open>Index\<close> are of this kind: a container's array does not hold the
  container itself.
\<close>

definition parent_apart :: "heap \<Rightarrow> addr \<Rightarrow> slice \<Rightarrow> bool" where
  "parent_apart h ja s =
     (case prev (nodes h ja) of
        None \<Rightarrow> True
      | Some p \<Rightarrow>
          (case data (nodes h p) of
             VSlice ps \<Rightarrow> sarr ps \<noteq> sarr s \<and> sarr ps < brk h
                            \<and> 0 \<le> prevIndex (nodes h ja)
                            \<and> prevIndex (nodes h ja) < int (slen ps)
           | _ \<Rightarrow> True))"

text \<open>
  If the parent of \<open>ja\<close> is a raw slice, it is another node, its header is valid and the
  index that \<open>ja\<close> remembers lies inside it, as after \<^verbatim>\<open>Index\<close> on that parent.
\<close>

definition parent_index_ok :: "heap \<Rightarrow> addr \<Rightarrow> bool" where
  "parent_index_ok h ja =
     (case prev (nodes h ja) of
        None \<Rightarrow> True
      | Some p \<Rightarrow>
          (case data (nodes h p) of
             VSlice ps \<Rightarrow> p \<noteq> ja \<and> slice_ok h ps
                            \<and> 0 \<le> prevIndex (nodes h ja)
                            \<and> prevIndex (nodes h ja) < int (slen ps)
           | _ \<Rightarrow> True))"

text \<open>If the value of \<open>p\<close> is a \<^verbatim>\<open>List\<close>, it lies on another backing array than \<open>s\<close>.\<close>

definition list_parent_apart :: "heap \<Rightarrow> addr \<Rightarrow> slice \<Rightarrow> bool" where
  "list_parent_apart h p s =
     (case data (nodes h p) of
        VList q \<Rightarrow> sarr q \<noteq> sarr s \<and> sarr q < brk h
      | _ \<Rightarrow> True)"

definition empty_heap :: heap where
  "empty_heap = \<lparr>maps = (\<lambda>a. []), arrays = (\<lambda>a. []), nodes = (\<lambda>a. empty_GoJson), brk = 0\<rparr>"

text \<open>The document \<^verbatim>\<open>[1,2,3]\<close> as the decoder builds it, wrapped by the node at address 1.\<close>

definition list_doc :: heap where
  "list_doc = empty_heap
     \<lparr>arrays := (\<lambda>a. [])(0 := [VNumber ''1'', VNumber ''2'', VNumber ''3'']),
      nodes := (\<lambda>a. empty_GoJson)(1 := empty_GoJson\<lparr>data := VSlice (Slice 0 0 3 3)\<rparr>),
      brk := 2\<rparr>"

text \<open>The document \<^verbatim>\<open>{"a": null}\<close>, wrapped by the node at address 1.\<close>

definition null_doc :: heap where
  "null_doc = empty_heap
     \<lparr>maps := (\<lambda>a. [])(0 := [(''a'', VNil)]),
      nodes := (\<lambda>a. empty_GoJson)(1 := empty_GoJson\<lparr>data := VMap 0\<rparr>),
      brk := 2\<rparr>"

text \<open>One choice of the run time for the capacity of a grown slice: twice the old one.\<close>

definition grow2 :: "nat \<Rightarrow> nat \<Rightarrow> nat" where
  "grow2 old needed = 2 * old"

text \<open>
  \<^verbatim>\<open>NewJson(NewJson(5))\<close> next to the document \<^verbatim>\<open>[1,2,3]\<close>: the node at address 3 wraps
  the pointer to the node at address 2, which wraps the int 5.
\<close>

definition wrapped_doc :: heap where
  "wrapped_doc = list_doc
     \<lparr>nodes := (nodes list_doc)(2 := empty_GoJson\<lparr>data := VInt 5\<rparr>,
                                3 := empty_GoJson\<lparr>data := VNode 2\<rparr>),
      brk := 4\<rparr>"

text \<open>The document \<^verbatim>\<open>{"a": [1,2,3]}\<close> as the decoder builds it, wrapped by the node at 2.\<close>

definition nested_doc :: heap where
  "nested_doc = empty_heap
     \<lparr>maps := (\<lambda>a. [])(0 := [(''a'', VSlice (Slice 1 0 3 3))]),
      arrays := (\<lambda>a. [])(1 := [VNumber ''1'', VNumber ''2'', VNumber ''3'']),
      nodes := (\<lambda>a. empty_GoJson)(2 := empty_GoJson\<lparr>data := VMap 0\<rparr>),
      brk := 3\<rparr>"

text \<open>
  The document \<^verbatim>\<open>{"a": [1,2]}\<close> as \<^verbatim>\<open>Clone\<close> rebuilds it, a \<^verbatim>\<open>Dict\<close> holding a
  \<^verbatim>\<open>List\<close>, wrapped by the node at 2.
\<close>

definition rebuilt_doc :: heap where
  "rebuilt_doc = empty_heap
     \<lparr>maps := (\<lambda>a. [])(0 := [(''a'', VList (Slice 1 0 2 2))]),
      arrays := (\<lambda>a. [])(1 := [VNumber ''1'', VNumber ''2'']),
      nodes := (\<lambda>a. empty_GoJson)(2 := empty_GoJson\<lparr>data := VDict 0\<rparr>),
      brk := 3\<rparr>"

text \<open>
  A decoder that knows the three JSON literals and rejects every other text, to run
  \<^verbatim>\<open>NewJson\<close> on text that is not JSON.
\<close>

definition literal_decoder :: decoder where
  "literal_decoder h text =
     (if text = ''null'' then Some (VNil, h)
      else if text = ''true'' then Some (VBool True, h)
      else if text = ''false'' then Some (VBool False, h)
      else None)"

text \<open>
  A raw document with a string of 200 letters, a number and a list:
  \<^verbatim>\<open>{"t": "xxx...", "n": 7, "l": ["ab", true]}\<close>, wrapped by the node at 2.
\<close>

definition long_doc :: heap where
  "long_doc = empty_heap
     \<lparr>maps := (\<lambda>a. [])(0 := [(''t'', VString (replicate 200 (CHR ''x''))), (''n'', VNumber ''7''),
                               (''l'', VSlice (Slice 1 0 2 2))]),
      arrays := (\<lambda>a. [])(1 := [VString ''ab'', VBool True]),
      nodes := (\<lambda>a. empty_GoJson)(2 := empty_GoJson\<lparr>data := VMap 0\<rparr>),
      brk := 3\<rparr>"

text \<open>The raw document \<^verbatim>\<open>{"a": [1,2]}\<close> as the decoder builds it, wrapped by the node at 2.\<close>

definition pair_doc :: heap where
  "pair_doc = empty_heap
     \<lparr>maps := (\<lambda>a. [])(0 := [(''a'', VSlice (Slice 1 0 2 2))]),
      arrays := (\<lambda>a. [])(1 := [VNumber ''1'', VNumber ''2'']),
      nodes := (\<lambda>a. empty_GoJson)(2 := empty_GoJson\<lparr>data := VMap 0\<rparr>),
      brk := 3\<rparr>"

section \<open>What the rebuilding pass may touch\<close>

text \<open>
  \<open>extends h h'\<close>: the heap \<open>h'\<close> has everything that was allocated in \<open>h\<close> unchanged.
  \<open>clean h\<close>: nothing is stored at an address that is not allocated yet.
\<close>

definition extends :: "heap \<Rightarrow> heap \<Rightarrow> bool" where
  "extends h h' =
     (brk h \<le> brk h' \<and> nodes h' = nodes h
      \<and> (\<forall>a. a < brk h \<longrightarrow> maps h' a = maps h a \<and> arrays h' a = arrays h a))"

definition clean :: "heap \<Rightarrow> bool" where
  "clean h = (\<forall>a. brk h \<le> a \<longrightarrow> maps h a = [] \<and> arrays h a = [])"

text \<open>
  The address of the map object or backing array that a value refers to, the values a
  container holds, and the containers that can be reached from a value through maps
  and arrays.
\<close>

definition container_at :: "val \<Rightarrow> addr option" where
  "container_at v =
     (case v of VMap a \<Rightarrow> Some a | VDict a \<Rightarrow> Some a
      | VSlice s \<Rightarrow> Some (sarr s) | VList s \<Rightarrow> Some (sarr s) | _ \<Rightarrow> None)"

definition stored :: "heap \<Rightarrow> addr \<Rightarrow> val set" where
  "stored h a = snd ` set (maps h a) \<union> set (arrays h a)"

inductive_set reach :: "heap \<Rightarrow> val \<Rightarrow> addr set" for h :: heap and v :: val where
  root: "container_at v = Some a \<Longrightarrow> a \<in> reach h v"
| step: "a \<in> reach h v \<Longrightarrow> x \<in> stored h a \<Longrightarrow> container_at x = Some c \<Longrightarrow> c \<in> reach h v"

text \<open>
  \<open>built_since b h\<close>: the containers at addresses from \<open>b\<close> on only hold containers
  that themselves lie at addresses from \<open>b\<close> on. \<open>fresh_val b h v\<close>: if \<open>v\<close> is a
  container, it lies there as well.
\<close>

definition built_since :: "addr \<Rightarrow> heap \<Rightarrow> bool" where
  "built_since b h =
     (\<forall>a v c. b \<le> a \<longrightarrow> v \<in> stored h a \<longrightarrow> container_at v = Some c \<longrightarrow> b \<le> c \<and> c < brk h)"

definition fresh_val :: "addr \<Rightarrow> heap \<Rightarrow> val \<Rightarrow> bool" where
  "fresh_val b h v = (\<forall>c. container_at v = Some c \<longrightarrow> b \<le> c \<and> c < brk h)"

definition handler_ok :: "addr \<Rightarrow> heap \<Rightarrow> heap \<Rightarrow> bool" where
  "handler_ok b h h' = (extends h h' \<and> clean h' \<and> built_since b h')"

section \<open>Evaluation on concrete heaps\<close>

lemmas eval_defs =
  Append_def appendSlice_def go_append_def new_array_def new_node_def set_data_def
  maintainParent_def Set_def setMap_def setSlice_def slice_store_def unwrap_def Value_def
  Get_def getMap_def map_index_def elems_def slice_index_def
  empty_heap_def empty_GoJson_def grow2_def Let_def write_at_def
  Insert_def insertSlice_def insert_elems_def Index_def getSlice_def

section \<open>The builtin append\<close>

lemma length_write_at:
  "k + length vs \<le> length xs \<Longrightarrow> length (write_at k vs xs) = length xs"
  by (simp add: write_at_def)

lemma take_drop_write_at_behind:
  "off + n + length vs \<le> length xs \<Longrightarrow>
   take (n + length vs) (drop off (write_at (off + n) vs xs)) = take n (drop off xs) @ vs"
  by (simp add: write_at_def drop_take)

lemma take_drop_write_at_before:
  "off + n \<le> length xs \<Longrightarrow>
   take n (drop off (write_at (off + n) vs xs)) = take n (drop off xs)"
  by (simp add: write_at_def drop_take)

lemma length_elems: "slice_ok h s \<Longrightarrow> length (elems h s) = slen s"
  by (auto simp: elems_def slice_ok_def)

lemma go_append_in_place:
  "slen s + length vs \<le> scap s \<Longrightarrow>
   go_append gc h s vs =
     (Slice (sarr s) (soff s) (slen s + length vs) (scap s),
      h\<lparr>arrays := (arrays h)(sarr s := write_at (soff s + slen s) vs (arrays h (sarr s)))\<rparr>)"
  by (simp add: go_append_def Let_def)

lemma go_append_fresh:
  "\<not> slen s + length vs \<le> scap s \<Longrightarrow>
   go_append gc h s vs =
     (Slice (brk h) 0 (slen s + length vs) (max (slen s + length vs) (gc (scap s) (slen s + length vs))),
      h\<lparr>arrays := (arrays h)(brk h := elems h s @ vs @
            replicate (max (slen s + length vs) (gc (scap s) (slen s + length vs)) - (slen s + length vs)) VNil),
        brk := Suc (brk h)\<rparr>)"
  by (simp add: go_append_def Let_def new_array_def)

lemma go_append_elems:
  assumes "slice_ok h s" and "go_append gc h s vs = (s', h')"
  shows "elems h' s' = elems h s @ vs"
proof (cases "slen s + length vs \<le> scap s")
  case True
  with assms have "soff s + slen s + length vs \<le> length (arrays h (sarr s))"
    by (simp add: slice_ok_def)
  with True assms(2) show ?thesis
    by (auto simp: go_append_in_place elems_def take_drop_write_at_behind)
next
  case False
  with assms show ?thesis
    by (auto simp: go_append_fresh elems_def slice_ok_def)
qed

lemma go_append_slen:
  "go_append gc h s vs = (s', h') \<Longrightarrow> slen s' = slen s + length vs"
  by (cases "slen s + length vs \<le> scap s") (auto simp: go_append_in_place go_append_fresh)

lemma go_append_old_view:
  assumes "slice_ok h s" and "go_append gc h s vs = (s', h')"
  shows "elems h' s = elems h s"
proof (cases "slen s + length vs \<le> scap s")
  case True
  with assms have "soff s + slen s \<le> length (arrays h (sarr s))"
    by (simp add: slice_ok_def)
  with True assms(2) show ?thesis
    by (auto simp: go_append_in_place elems_def take_drop_write_at_before)
next
  case False
  with assms show ?thesis
    by (auto simp: go_append_fresh elems_def slice_ok_def)
qed

lemma go_append_frame:
  assumes "go_append gc h s vs = (s', h')"
  shows "maps h' = maps h" and "nodes h' = nodes h" and "brk h \<le> brk h'"
    and "a \<noteq> sarr s \<Longrightarrow> a < brk h \<Longrightarrow> arrays h' a = arrays h a"
  using assms
  by (cases "slen s + length vs \<le> scap s"; auto simp: go_append_in_place go_append_fresh)+

lemma go_append_sarr:
  assumes "go_append gc h s vs = (s', h')"
  shows "sarr s' = sarr s \<or> sarr s' = brk h"
  using assms
  by (cases "slen s + length vs \<le> scap s") (auto simp: go_append_in_place go_append_fresh)

lemma go_append_ok:
  assumes "slice_ok h s" and "go_append gc h s vs = (s', h')"
  shows "slice_ok h' s'"
proof (cases "slen s + length vs \<le> scap s")
  case True
  with assms show ?thesis
    by (auto simp: go_append_in_place slice_ok_def length_write_at)
next
  case False
  with assms show ?thesis
    by (auto simp: go_append_fresh slice_ok_def elems_def)
qed

lemma go_append_keeps_ok:
  assumes "slice_ok h s" and "slice_ok h q" and "go_append gc h s vs = (s', h')"
  shows "slice_ok h' q"
proof (cases "slen s + length vs \<le> scap s")
  case True
  with assms show ?thesis
    by (cases "sarr q = sarr s") (auto simp: go_append_in_place slice_ok_def length_write_at)
next
  case False
  with assms show ?thesis
    by (auto simp: go_append_fresh slice_ok_def)
qed

section \<open>Writing back into the parent\<close>

lemma maintainParent_root:
  "prev (nodes h c) = None \<Longrightarrow> maintainParent h c = Inr h"
  by (simp add: maintainParent_def)

lemma maintainParent_not_raw:
  "prev (nodes h c) = Some p \<Longrightarrow> \<not> is_raw (data (nodes h p)) \<Longrightarrow> maintainParent h c = Inr h"
  by (cases "data (nodes h p)") (simp_all add: maintainParent_def Value_def is_raw_def)

lemma maintainParent_map:
  "prev (nodes h c) = Some p \<Longrightarrow> data (nodes h p) = VMap a \<Longrightarrow>
   maintainParent h c =
     Inr (h\<lparr>maps := (maps h)(a := AList.update (prevKey (nodes h c)) (data (nodes h c)) (maps h a))\<rparr>)"
  by (simp add: maintainParent_def Value_def Set_def setMap_def unwrap_def)

lemma maintainParent_slice:
  "prev (nodes h c) = Some p \<Longrightarrow> data (nodes h p) = VSlice ps \<Longrightarrow>
   maintainParent h c =
     (if 0 \<le> prevIndex (nodes h c) \<and> prevIndex (nodes h c) < int (slen ps)
      then Inr (h\<lparr>arrays := (arrays h)(sarr ps :=
                 (arrays h (sarr ps))[soff ps + nat (prevIndex (nodes h c)) := data (nodes h c)])\<rparr>)
      else Inl IndexOutOfRange)"
  by (simp add: maintainParent_def Value_def Set_def setSlice_def slice_store_def unwrap_def)

lemma maintainParent_nodes:
  assumes "maintainParent h c = Inr h'"
  shows "nodes h' = nodes h" and "brk h' = brk h"
proof -
  have "nodes h' = nodes h \<and> brk h' = brk h"
  proof (cases "prev (nodes h c)")
    case None
    with assms show ?thesis by (simp add: maintainParent_root)
  next
    case (Some p)
    show ?thesis
    proof (cases "is_raw (data (nodes h p))")
      case False
      with Some assms show ?thesis by (simp add: maintainParent_not_raw)
    next
      case True
      then consider a where "data (nodes h p) = VMap a" | ps where "data (nodes h p) = VSlice ps"
        by (cases "data (nodes h p)") (simp_all add: is_raw_def)
      then show ?thesis
      proof cases
        case 1
        with Some assms show ?thesis by (auto simp: maintainParent_map)
      next
        case 2
        with Some assms show ?thesis by (auto simp: maintainParent_slice split: if_splits)
      qed
    qed
  qed
  then show "nodes h' = nodes h" and "brk h' = brk h" by simp_all
qed

lemma maintainParent_apart:
  assumes "\<And>p ps. prev (nodes h c) = Some p \<Longrightarrow> data (nodes h p) = VSlice ps \<Longrightarrow>
             sarr ps \<noteq> a \<and> 0 \<le> prevIndex (nodes h c) \<and> prevIndex (nodes h c) < int (slen ps)"
  shows "\<exists>h'. maintainParent h c = Inr h' \<and> arrays h' a = arrays h a \<and> nodes h' = nodes h"
proof (cases "prev (nodes h c)")
  case None
  then show ?thesis by (simp add: maintainParent_root)
next
  case (Some p)
  show ?thesis
  proof (cases "is_raw (data (nodes h p))")
    case False
    with Some show ?thesis by (simp add: maintainParent_not_raw)
  next
    case True
    then consider m where "data (nodes h p) = VMap m" | ps where "data (nodes h p) = VSlice ps"
      by (cases "data (nodes h p)") (simp_all add: is_raw_def)
    then show ?thesis
    proof cases
      case 1
      with Some show ?thesis by (simp add: maintainParent_map)
    next
      case 2
      with Some assms[OF Some 2] show ?thesis by (simp add: maintainParent_slice)
    qed
  qed
qed

section \<open>Append, unfolded\<close>

lemma seq_of_cases:
  assumes "seq_of v = Some s"
  shows "v = VSlice s \<or> v = VList s"
  using assms by (cases v) (simp_all add: seq_of_def)

lemma set_data_simps:
  "maps (set_data h ja d) = maps h"
  "arrays (set_data h ja d) = arrays h"
  "brk (set_data h ja d) = brk h"
  "nodes (set_data h ja d) ja = (nodes h ja)\<lparr>data := d\<rparr>"
  "p \<noteq> ja \<Longrightarrow> nodes (set_data h ja d) p = nodes h p"
  by (simp_all add: set_data_def)

lemma Append_not_seq:
  "seq_of (data (nodes h ja)) = None \<Longrightarrow> Append gc h ja x = Inr (ja, h)"
  by (cases "data (nodes h ja)") (simp_all add: Append_def appendSlice_def seq_of_def Let_def)

lemma Append_VSlice:
  "data (nodes h ja) = VSlice s \<Longrightarrow> go_append gc h s [unwrap h (unwrap h x)] = (s', h1) \<Longrightarrow>
   Append gc h ja x =
     (case maintainParent (set_data h1 ja (VSlice s')) ja of
        Inl e \<Rightarrow> Inl e | Inr h2 \<Rightarrow> Inr (ja, h2))"
  by (simp add: Append_def appendSlice_def Let_def unwrap_def)

lemma Append_VList:
  "data (nodes h ja) = VList s \<Longrightarrow> go_append gc h s [unwrap h (unwrap h x)] = (s', h1) \<Longrightarrow>
   Append gc h ja x =
     (case maintainParent (set_data h1 ja (VList s')) ja of
        Inl e \<Rightarrow> Inl e | Inr h2 \<Rightarrow> Inr (ja, h2))"
  by (simp add: Append_def appendSlice_def Let_def unwrap_def)

lemma Append_seq:
  assumes seq: "seq_of (data (nodes h ja)) = Some s"
      and ga: "go_append gc h s [unwrap h (unwrap h x)] = (s', h1)"
  shows "\<exists>d. seq_of d = Some s' \<and> is_raw d = is_raw (data (nodes h ja)) \<and>
             Append gc h ja x =
               (case maintainParent (set_data h1 ja d) ja of
                  Inl e \<Rightarrow> Inl e | Inr h2 \<Rightarrow> Inr (ja, h2))"
proof -
  from seq_of_cases[OF seq] show ?thesis
  proof
    assume "data (nodes h ja) = VSlice s"
    with ga have "seq_of (VSlice s') = Some s' \<and> is_raw (VSlice s') = is_raw (data (nodes h ja)) \<and>
             Append gc h ja x =
               (case maintainParent (set_data h1 ja (VSlice s')) ja of
                  Inl e \<Rightarrow> Inl e | Inr h2 \<Rightarrow> Inr (ja, h2))"
      by (simp add: Append_VSlice seq_of_def is_raw_def)
    then show ?thesis by blast
  next
    assume "data (nodes h ja) = VList s"
    with ga have "seq_of (VList s') = Some s' \<and> is_raw (VList s') = is_raw (data (nodes h ja)) \<and>
             Append gc h ja x =
               (case maintainParent (set_data h1 ja (VList s')) ja of
                  Inl e \<Rightarrow> Inl e | Inr h2 \<Rightarrow> Inr (ja, h2))"
      by (simp add: Append_VList seq_of_def is_raw_def)
    then show ?thesis by blast
  qed
qed

lemma is_raw_cases:
  assumes "is_raw v"
  shows "(\<exists>a. v = VMap a) \<or> (\<exists>ps. v = VSlice ps)"
  using assms by (cases v) (simp_all add: is_raw_def)

lemma seq_of_not_node: "seq_of d = Some s \<Longrightarrow> d \<noteq> VNode c"
  by (auto simp: seq_of_def)

lemma not_raw_seq:
  assumes "\<not> is_raw v" and "seq_of v = Some q"
  shows "v = VList q"
  using assms by (cases v) (simp_all add: is_raw_def seq_of_def)

lemma not_raw_parent_distinct:
  assumes seq: "seq_of (data (nodes h ja)) = Some s"
      and nraw: "\<not> is_raw (data (nodes h p))"
      and apart: "list_parent_apart h p s"
  shows "p \<noteq> ja"
proof
  assume "p = ja"
  with seq nraw have "data (nodes h p) = VList s" by (simp add: not_raw_seq)
  with apart show False by (simp add: list_parent_apart_def)
qed

lemma not_raw_parent_array:
  assumes nraw: "\<not> is_raw (data (nodes h p))"
      and apart: "list_parent_apart h p s"
      and q: "seq_of (data (nodes h p)) = Some q"
  shows "sarr q \<noteq> sarr s \<and> sarr q < brk h"
proof -
  from nraw q have "data (nodes h p) = VList q" by (rule not_raw_seq)
  with apart show ?thesis by (simp add: list_parent_apart_def)
qed

section \<open>Insert, unfolded\<close>

lemma go_append_literal:
  "\<exists>rear h1. go_append gc h (Slice 0 0 0 0) vs = (rear, h1)
     \<and> maps h1 = maps h \<and> nodes h1 = nodes h \<and> brk h \<le> brk h1
     \<and> (\<forall>a. a < brk h \<longrightarrow> arrays h1 a = arrays h a)
     \<and> (\<forall>h2. (\<forall>a. brk h \<le> a \<longrightarrow> a < brk h1 \<longrightarrow> arrays h2 a = arrays h1 a)
            \<longrightarrow> elems h2 rear = vs)"
proof (cases "vs = []")
  case True
  have "h\<lparr>arrays := (arrays h)(0 := write_at 0 [] (arrays h 0))\<rparr> = h"
    by (simp add: write_at_def)
  then have "go_append gc h (Slice 0 0 0 0) vs = (Slice 0 0 0 0, h)"
    using True by (simp add: go_append_def Let_def)
  with True show ?thesis by (simp add: elems_def)
next
  case False
  then have "go_append gc h (Slice 0 0 0 0) vs =
     (Slice (brk h) 0 (length vs) (max (length vs) (gc 0 (length vs))),
      h\<lparr>arrays := (arrays h)(brk h := vs @
            replicate (max (length vs) (gc 0 (length vs)) - length vs) VNil),
        brk := Suc (brk h)\<rparr>)"
    by (simp add: go_append_def Let_def new_array_def elems_def)
  then show ?thesis by (simp add: elems_def)
qed

lemma elems_suffix:
  "elems h (Slice (sarr s) (soff s + i) (slen s - i) (scap s - i)) = drop i (elems h s)"
  by (simp add: elems_def drop_take add.commute)

lemma elems_prefix:
  "i \<le> slen s \<Longrightarrow> elems h (Slice (sarr s) (soff s) i (scap s)) = take i (elems h s)"
  by (simp add: elems_def min_def)

lemma insert_elems_spec:
  assumes ok: "slice_ok h s" and rng: "0 \<le> index \<and> index \<le> int (slen s)"
  shows "\<exists>r h'. insert_elems gc h s index v = Inr (r, h')
           \<and> slen r = slen s + 1
           \<and> elems h' r = take (nat index) (elems h s) @ [v] @ drop (nat index) (elems h s)
           \<and> maps h' = maps h \<and> nodes h' = nodes h
           \<and> (\<forall>a. a \<noteq> sarr s \<longrightarrow> a < brk h \<longrightarrow> arrays h' a = arrays h a)"
proof -
  let ?i = "nat index"
  let ?tl = "drop ?i (elems h s)"
  let ?q = "Slice (sarr s) (soff s) ?i (scap s)"
  from rng have i: "?i \<le> slen s" by linarith
  from go_append_literal[of gc h ?tl] obtain rear h1 where
    g1: "go_append gc h (Slice 0 0 0 0) ?tl = (rear, h1)"
    and m1: "maps h1 = maps h" and n1: "nodes h1 = nodes h" and b1: "brk h \<le> brk h1"
    and a1: "\<forall>a. a < brk h \<longrightarrow> arrays h1 a = arrays h a"
    and st: "\<forall>h2. (\<forall>a. brk h \<le> a \<longrightarrow> a < brk h1 \<longrightarrow> arrays h2 a = arrays h1 a)
            \<longrightarrow> elems h2 rear = ?tl"
    by blast
  from ok have sb: "sarr s < brk h" by (simp add: slice_ok_def)
  with a1 have same: "arrays h1 (sarr s) = arrays h (sarr s)" by simp
  have okq: "slice_ok h1 ?q" using ok i b1 same by (simp add: slice_ok_def)
  have elq: "elems h1 ?q = take ?i (elems h s)"
    using elems_prefix[OF i, of h1] same by (simp add: elems_def)
  obtain v1 h2 where g2: "go_append gc h1 ?q [v] = (v1, h2)"
    by (cases "go_append gc h1 ?q [v]")
  have el2: "elems h2 v1 = take ?i (elems h s) @ [v]"
    using go_append_elems[OF okq g2] elq by simp
  have ok2: "slice_ok h2 v1" using go_append_ok[OF okq g2] .
  have len2: "slen v1 = ?i + 1" using go_append_slen[OF g2] by simp
  have fr2: "\<And>a. a \<noteq> sarr s \<Longrightarrow> a < brk h1 \<Longrightarrow> arrays h2 a = arrays h1 a"
    using go_append_frame(4)[OF g2] by simp
  have b2: "brk h1 \<le> brk h2" using go_append_frame(3)[OF g2] .
  have sv1: "sarr v1 = sarr s \<or> sarr v1 = brk h1" using go_append_sarr[OF g2] by simp
  have "\<forall>a. brk h \<le> a \<longrightarrow> a < brk h1 \<longrightarrow> arrays h2 a = arrays h1 a"
    using fr2 sb by auto
  with st have rear2: "elems h2 rear = ?tl" by blast
  obtain r h3 where g3: "go_append gc h2 v1 ?tl = (r, h3)"
    by (cases "go_append gc h2 v1 ?tl")
  have el3: "elems h3 r = take ?i (elems h s) @ [v] @ ?tl"
    using go_append_elems[OF ok2 g3] el2 by simp
  have len3: "slen r = slen s + 1"
    using go_append_slen[OF g3] len2 i length_elems[OF ok] by simp
  have fr3: "\<And>a. a \<noteq> sarr v1 \<Longrightarrow> a < brk h2 \<Longrightarrow> arrays h3 a = arrays h2 a"
    using go_append_frame(4)[OF g3] by simp
  have frame: "\<forall>a. a \<noteq> sarr s \<longrightarrow> a < brk h \<longrightarrow> arrays h3 a = arrays h a"
  proof (intro allI impI)
    fix a assume ne: "a \<noteq> sarr s" and lt: "a < brk h"
    with sv1 b1 have "a \<noteq> sarr v1" by auto
    moreover from lt b1 b2 have "a < brk h2" and "a < brk h1" by simp_all
    ultimately show "arrays h3 a = arrays h a" using fr3 fr2 a1 ne lt by simp
  qed
  have "insert_elems gc h s index v = Inr (r, h3)"
    using rng g1 g2 g3 rear2 by (simp add: insert_elems_def Let_def elems_suffix)
  moreover have "maps h3 = maps h"
    using go_append_frame(1)[OF g3] go_append_frame(1)[OF g2] m1 by simp
  moreover have "nodes h3 = nodes h"
    using go_append_frame(2)[OF g3] go_append_frame(2)[OF g2] n1 by simp
  ultimately show ?thesis using len3 el3 frame by blast
qed

lemma insert_elems_panics:
  "\<not> (0 \<le> index \<and> index \<le> int (slen s)) \<Longrightarrow>
   insert_elems gc h s index v = Inl SliceBoundsOutOfRange"
  by (auto simp: insert_elems_def)

lemma Insert_not_seq:
  "seq_of (data (nodes h ja)) = None \<Longrightarrow> Insert gc h ja index x = Inr (ja, h)"
  by (cases "data (nodes h ja)") (simp_all add: Insert_def insertSlice_def seq_of_def Let_def)

lemma Insert_seq:
  assumes seq: "seq_of (data (nodes h ja)) = Some s"
      and ie: "insert_elems gc h s index (unwrap h x) = Inr (r, h1)"
  shows "\<exists>d. seq_of d = Some r \<and> is_raw d = is_raw (data (nodes h ja)) \<and>
             Insert gc h ja index x =
               (case maintainParent (set_data h1 ja d) ja of
                  Inl e \<Rightarrow> Inl e | Inr h2 \<Rightarrow> Inr (ja, h2))"
proof -
  from seq_of_cases[OF seq] show ?thesis
  proof
    assume "data (nodes h ja) = VSlice s"
    with ie have "seq_of (VSlice r) = Some r \<and> is_raw (VSlice r) = is_raw (data (nodes h ja)) \<and>
             Insert gc h ja index x =
               (case maintainParent (set_data h1 ja (VSlice r)) ja of
                  Inl e \<Rightarrow> Inl e | Inr h2 \<Rightarrow> Inr (ja, h2))"
      by (simp add: Insert_def insertSlice_def Let_def seq_of_def is_raw_def)
    then show ?thesis by blast
  next
    assume "data (nodes h ja) = VList s"
    with ie have "seq_of (VList r) = Some r \<and> is_raw (VList r) = is_raw (data (nodes h ja)) \<and>
             Insert gc h ja index x =
               (case maintainParent (set_data h1 ja (VList r)) ja of
                  Inl e \<Rightarrow> Inl e | Inr h2 \<Rightarrow> Inr (ja, h2))"
      by (simp add: Insert_def insertSlice_def Let_def seq_of_def is_raw_def)
    then show ?thesis by blast
  qed
qed

section \<open>The rebuilding pass on a document\<close>

text \<open>
  On a mapping the pass builds a new \<^verbatim>\<open>Dict\<close> and a new \<^verbatim>\<open>List\<close>, cuts the long string and
  leaves the map and the array of the input as they were.
\<close>

lemmas handler_defs =
  ShortNiceJson_def Clone_def IsSlice_def IsMap_def NewJson_def NewJsonFromData_def
  new_map_def handlerString_def

lemma ShortNiceJson_long_doc:
  "(case ShortNiceJson literal_decoder grow2 4 long_doc (nodes long_doc 2) of
      None \<Rightarrow> False
    | Some (r, h') \<Rightarrow>
        r = 7 \<and> data (nodes h' 7) = VDict 3
        \<and> maps h' 3 = [(''t'', VString (replicate 120 (CHR ''x'') @ ''......'')),
                        (''n'', VNumber ''7''), (''l'', VList (Slice 6 0 2 2))]
        \<and> elems h' (Slice 6 0 2 2) = [VString ''ab'', VBool True]
        \<and> maps h' 0 = maps long_doc 0 \<and> arrays h' 1 = arrays long_doc 1)"
  by (simp add: eval_defs handler_defs long_doc_def numeral_nat take_replicate)

section \<open>The rebuilding pass allocates every container anew\<close>

lemma extends_refl: "extends h h"
  by (simp add: extends_def)

lemma extends_trans: "extends h h1 \<Longrightarrow> extends h1 h2 \<Longrightarrow> extends h h2"
  by (auto simp: extends_def)

lemma extends_brk: "extends h h' \<Longrightarrow> brk h \<le> brk h'"
  by (simp add: extends_def)

lemma range_loop_invariant:
  assumes "range_loop body xs st = Some st'" and "P st"
      and "\<And>x st st'. x \<in> set xs \<Longrightarrow> P st \<Longrightarrow> body x st = Some st' \<Longrightarrow> P st'"
  shows "P st'"
  using assms
proof (induction xs arbitrary: st)
  case Nil
  then show ?case by simp
next
  case (Cons x xs)
  from Cons.prems(1) obtain st1 where b: "body x st = Some st1"
    and r: "range_loop body xs st1 = Some st'"
    by (auto split: option.splits)
  have "P st1" using Cons.prems(3)[OF _ Cons.prems(2) b] by simp
  then show ?case using Cons.IH[OF r] Cons.prems(3) by auto
qed

lemma set_update_subset: "snd ` set (AList.update k v al) \<subseteq> insert v (snd ` set al)"
  by (induction al) auto

lemma set_write_at: "set (write_at k vs xs) \<subseteq> set xs \<union> set vs"
proof -
  have "set (take k xs) \<subseteq> set xs" by (rule set_take_subset)
  moreover have "set (drop (k + length vs) xs) \<subseteq> set xs" by (rule set_drop_subset)
  ultimately show ?thesis by (auto simp: write_at_def)
qed

lemma set_elems: "set (elems h s) \<subseteq> set (arrays h (sarr s))"
proof -
  have "set (take (slen s) (drop (soff s) (arrays h (sarr s)))) \<subseteq> set (drop (soff s) (arrays h (sarr s)))"
    by (rule set_take_subset)
  also have "\<dots> \<subseteq> set (arrays h (sarr s))" by (rule set_drop_subset)
  finally show ?thesis by (simp add: elems_def)
qed

lemma stored_map_update:
  "stored (h\<lparr>maps := (maps h)(r := AList.update key v (maps h r))\<rparr>) a
     \<subseteq> insert v (stored h a)"
  using set_update_subset[of key v "maps h r"] by (auto simp: stored_def)

lemma built_since_mono:
  assumes bs: "built_since b h" and cl: "clean h"
      and st: "\<And>a. b \<le> a \<Longrightarrow> stored h' a \<subseteq> stored h a \<union> X"
      and X: "\<And>v c. v \<in> X \<Longrightarrow> container_at v = Some c \<Longrightarrow> b \<le> c \<and> c < brk h'"
      and brk: "brk h \<le> brk h'"
  shows "built_since b h'"
  unfolding built_since_def
proof (intro allI impI)
  fix a v c
  assume a: "b \<le> a" and v: "v \<in> stored h' a" and c: "container_at v = Some c"
  from st[OF a] v have "v \<in> stored h a \<or> v \<in> X" by auto
  then show "b \<le> c \<and> c < brk h'"
  proof
    assume "v \<in> stored h a"
    with bs a c have "b \<le> c \<and> c < brk h" by (auto simp: built_since_def)
    with brk show ?thesis by simp
  next
    assume "v \<in> X"
    then show ?thesis using X c by blast
  qed
qed

lemma new_map_inv:
  assumes cl: "clean h" and bs: "built_since b h" and "new_map h [] = (r, h0)"
  shows "extends h h0 \<and> clean h0 \<and> built_since b h0 \<and> r = brk h \<and> brk h0 = Suc (brk h)"
proof -
  from assms(3) have r: "r = brk h"
    and h0: "h0 = h\<lparr>maps := (maps h)(brk h := []), brk := Suc (brk h)\<rparr>"
    by (auto simp: new_map_def)
  have "extends h h0" by (simp add: h0 extends_def)
  moreover have "clean h0" using cl by (simp add: h0 clean_def)
  moreover have "built_since b h0"
  proof (rule built_since_mono[OF bs cl, where X = "{}"])
    fix a show "stored h0 a \<subseteq> stored h a \<union> {}" by (auto simp: h0 stored_def)
  qed (simp_all add: h0)
  ultimately show ?thesis using r by (simp add: h0)
qed

lemma new_array_inv:
  assumes cl: "clean h" and bs: "built_since b h" and "new_array h [] = (r, h0)"
  shows "extends h h0 \<and> clean h0 \<and> built_since b h0 \<and> r = brk h \<and> brk h0 = Suc (brk h)"
proof -
  from assms(3) have r: "r = brk h"
    and h0: "h0 = h\<lparr>arrays := (arrays h)(brk h := []), brk := Suc (brk h)\<rparr>"
    by (auto simp: new_array_def)
  have "extends h h0" by (simp add: h0 extends_def)
  moreover have "clean h0" using cl by (simp add: h0 clean_def)
  moreover have "built_since b h0"
  proof (rule built_since_mono[OF bs cl, where X = "{}"])
    fix a show "stored h0 a \<subseteq> stored h a \<union> {}" by (auto simp: h0 stored_def)
  qed (simp_all add: h0)
  ultimately show ?thesis using r by (simp add: h0)
qed

lemma map_store_inv:
  assumes ex: "extends h h2" and cl: "clean h2" and bs: "built_since b h2"
      and fv: "fresh_val b' h2 v'" and bb: "b \<le> b'"
      and r: "brk h \<le> r" "r < brk h2"
  shows "extends h (h2\<lparr>maps := (maps h2)(r := AList.update key v' (maps h2 r))\<rparr>)
         \<and> clean (h2\<lparr>maps := (maps h2)(r := AList.update key v' (maps h2 r))\<rparr>)
         \<and> built_since b (h2\<lparr>maps := (maps h2)(r := AList.update key v' (maps h2 r))\<rparr>)"
proof -
  let ?h3 = "h2\<lparr>maps := (maps h2)(r := AList.update key v' (maps h2 r))\<rparr>"
  have "extends h ?h3" using ex r by (auto simp: extends_def)
  moreover have "clean ?h3" using cl r by (auto simp: clean_def)
  moreover have "built_since b ?h3"
  proof (rule built_since_mono[OF bs cl, where X = "{v'}"])
    fix a show "stored ?h3 a \<subseteq> stored h2 a \<union> {v'}"
      using stored_map_update[of h2 r key v' a] by auto
  next
    fix v c assume "v \<in> {v'}" and "container_at v = Some c"
    with fv bb show "b \<le> c \<and> c < brk ?h3" by (auto simp: fresh_val_def)
  qed simp
  ultimately show ?thesis by simp
qed

lemma go_append_inv:
  assumes ex: "extends h h2" and cl: "clean h2" and bs: "built_since b h2"
      and fv: "fresh_val b' h2 v'" and bb: "b \<le> b'"
      and r: "brk h \<le> sarr ret" "sarr ret < brk h2" and bh0: "b \<le> brk h"
      and ga: "go_append gc h2 ret [v'] = (ret', h3)"
  shows "extends h h3 \<and> clean h3 \<and> built_since b h3
         \<and> brk h \<le> sarr ret' \<and> sarr ret' < brk h3"
proof (cases "slen ret + length [v'] \<le> scap ret")
  case True
  with ga have ret': "ret' = Slice (sarr ret) (soff ret) (slen ret + length [v']) (scap ret)"
    and h3: "h3 = h2\<lparr>arrays := (arrays h2)(sarr ret :=
                 write_at (soff ret + slen ret) [v'] (arrays h2 (sarr ret)))\<rparr>"
    by (simp_all add: go_append_in_place)
  have "extends h h3" using ex r by (auto simp: h3 extends_def)
  moreover have "clean h3" using cl r by (auto simp: h3 clean_def)
  moreover have "built_since b h3"
  proof (rule built_since_mono[OF bs cl, where X = "{v'}"])
    fix a show "stored h3 a \<subseteq> stored h2 a \<union> {v'}"
      using set_write_at[of "soff ret + slen ret" "[v']" "arrays h2 (sarr ret)"]
      by (auto simp: h3 stored_def)
  next
    fix v c assume "v \<in> {v'}" and "container_at v = Some c"
    with fv bb show "b \<le> c \<and> c < brk h3" by (auto simp: fresh_val_def h3)
  qed (simp add: h3)
  ultimately show ?thesis using r by (simp add: ret' h3)
next
  case False
  let ?c = "max (slen ret + length [v']) (gc (scap ret) (slen ret + length [v']))"
  let ?xs = "elems h2 ret @ [v'] @ replicate (?c - (slen ret + length [v'])) VNil"
  from False ga have ret': "ret' = Slice (brk h2) 0 (slen ret + length [v']) ?c"
    and h3: "h3 = h2\<lparr>arrays := (arrays h2)(brk h2 := ?xs), brk := Suc (brk h2)\<rparr>"
    by (simp_all add: go_append_fresh)
  have bh: "brk h \<le> brk h2" using ex by (simp add: extends_def)
  have "extends h h3" using ex by (auto simp: h3 extends_def)
  moreover have "clean h3" using cl by (auto simp: h3 clean_def)
  moreover have "built_since b h3"
  proof (rule built_since_mono[OF bs cl, where X = "insert v' (insert VNil (stored h2 (sarr ret)))"])
    fix a show "stored h3 a \<subseteq> stored h2 a \<union> insert v' (insert VNil (stored h2 (sarr ret)))"
      using set_elems[of h2 ret] by (auto simp: h3 stored_def)
  next
    fix v c
    assume v: "v \<in> insert v' (insert VNil (stored h2 (sarr ret)))"
      and c: "container_at v = Some c"
    from v consider "v = v'" | "v = VNil" | "v \<in> stored h2 (sarr ret)" by auto
    then show "b \<le> c \<and> c < brk h3"
    proof cases
      case 1
      with fv bb c show ?thesis by (auto simp: fresh_val_def h3)
    next
      case 2
      with c show ?thesis by (simp add: container_at_def)
    next
      case 3
      from r bh0 have "b \<le> sarr ret" by simp
      with bs 3 c have "b \<le> c \<and> c < brk h2" by (auto simp: built_since_def)
      then show ?thesis by (simp add: h3)
    qed
  qed (simp add: h3)
  ultimately show ?thesis using bh by (simp add: ret' h3)
qed

lemma handler_ok_refl: "clean h \<Longrightarrow> built_since b h \<Longrightarrow> handler_ok b h h"
  by (simp add: handler_ok_def extends_refl)

lemma handlerMap_loop_fresh:
  assumes IH: "\<And>h v cut v' h'. clean h \<Longrightarrow> built_since b h \<Longrightarrow> b \<le> brk h \<Longrightarrow>
                 handlerVal n gc h v cut = Some (v', h') \<Longrightarrow>
                 handler_ok b h h' \<and> fresh_val (brk h) h' v'"
      and loop: "range_loop (\<lambda>(key, v) h1.
                 case handlerVal n gc h1 v cutLongStr of
                   None \<Rightarrow> None
                 | Some (v', h2) \<Rightarrow>
                     Some (h2\<lparr>maps := (maps h2)(ret := AList.update key v' (maps h2 ret))\<rparr>))
                 es h0 = Some h'"
      and start: "extends h h0" "clean h0" "built_since b h0"
      and ret: "brk h \<le> ret" "ret < brk h0" and b: "b \<le> brk h"
  shows "extends h h' \<and> clean h' \<and> built_since b h' \<and> ret < brk h'"
proof (rule range_loop_invariant[OF loop, where P = "\<lambda>hc. extends h hc \<and> clean hc \<and> built_since b hc \<and> ret < brk hc"])
  show "extends h h0 \<and> clean h0 \<and> built_since b h0 \<and> ret < brk h0"
    using start ret by simp
next
  fix x hc hc'
  assume inv: "extends h hc \<and> clean hc \<and> built_since b hc \<and> ret < brk hc"
    and step: "(case x of (key, v) \<Rightarrow> \<lambda>h1.
                 case handlerVal n gc h1 v cutLongStr of
                   None \<Rightarrow> None
                 | Some (v', h2) \<Rightarrow>
                     Some (h2\<lparr>maps := (maps h2)(ret := AList.update key v' (maps h2 ret))\<rparr>))
               hc = Some hc'"
  obtain key v where x: "x = (key, v)" by (cases x)
  from step x obtain v' h2 where hv: "handlerVal n gc hc v cutLongStr = Some (v', h2)"
    and hc': "hc' = h2\<lparr>maps := (maps h2)(ret := AList.update key v' (maps h2 ret))\<rparr>"
    by (auto split: option.splits)
  from inv have bhc: "b \<le> brk hc" using b extends_brk[of h hc] by simp
  from IH[OF _ _ bhc hv] inv
  have ok: "handler_ok b hc h2" and fv: "fresh_val (brk hc) h2 v'" by simp_all
  from ok have e2: "extends hc h2" and c2: "clean h2" and b2: "built_since b h2"
    by (simp_all add: handler_ok_def)
  from inv e2 have e: "extends h h2" using extends_trans by blast
  from inv extends_brk[OF e2] have r2: "ret < brk h2" by simp
  from map_store_inv[OF e c2 b2 fv bhc ret(1) r2, of key]
  show "extends h hc' \<and> clean hc' \<and> built_since b hc' \<and> ret < brk hc'"
    using r2 by (simp add: hc')
qed

lemma handlerSlice_loop_fresh:
  assumes IH: "\<And>h v cut v' h'. clean h \<Longrightarrow> built_since b h \<Longrightarrow> b \<le> brk h \<Longrightarrow>
                 handlerVal n gc h v cut = Some (v', h') \<Longrightarrow>
                 handler_ok b h h' \<and> fresh_val (brk h) h' v'"
      and loop: "range_loop (\<lambda>i (ret, h1).
                 case handlerVal n gc h1 (arrays h1 (sarr s) ! (soff s + i)) cutLongStr of
                   None \<Rightarrow> None
                 | Some (v', h2) \<Rightarrow> Some (go_append gc h2 ret [v']))
                 is (ret0, h0) = Some (ret', h')"
      and start: "extends h h0" "clean h0" "built_since b h0"
      and ret: "brk h \<le> sarr ret0" "sarr ret0 < brk h0" and b: "b \<le> brk h"
  shows "extends h h' \<and> clean h' \<and> built_since b h' \<and> brk h \<le> sarr ret' \<and> sarr ret' < brk h'"
proof -
  let ?P = "\<lambda>st. extends h (snd st) \<and> clean (snd st) \<and> built_since b (snd st)
                  \<and> brk h \<le> sarr (fst st) \<and> sarr (fst st) < brk (snd st)"
  have "?P (ret', h')"
  proof (rule range_loop_invariant[OF loop, where P = ?P])
    show "?P (ret0, h0)" using start ret by simp
  next
    fix i st st'
    assume inv: "?P st"
      and step: "(case st of (ret, h1) \<Rightarrow>
                 case handlerVal n gc h1 (arrays h1 (sarr s) ! (soff s + i)) cutLongStr of
                   None \<Rightarrow> None
                 | Some (v', h2) \<Rightarrow> Some (go_append gc h2 ret [v'])) = Some st'"
    obtain ret hc where st: "st = (ret, hc)" by (cases st)
    obtain ret2 h3 where st': "st' = (ret2, h3)" by (cases st')
    from step st st' obtain v' h2 where
      hv: "handlerVal n gc hc (arrays hc (sarr s) ! (soff s + i)) cutLongStr = Some (v', h2)"
      and ga: "go_append gc h2 ret [v'] = (ret2, h3)"
      by (auto split: option.splits)
    from inv st have i1: "extends h hc" and i2: "clean hc" and i3: "built_since b hc"
      and i4: "brk h \<le> sarr ret" and i5: "sarr ret < brk hc" by simp_all
    from i1 have bhc: "b \<le> brk hc" using b extends_brk[of h hc] by simp
    from IH[OF i2 i3 bhc hv]
    have ok: "handler_ok b hc h2" and fv: "fresh_val (brk hc) h2 v'" by simp_all
    from ok have e2: "extends hc h2" and c2: "clean h2" and b2: "built_since b h2"
      by (simp_all add: handler_ok_def)
    from i1 e2 have e: "extends h h2" using extends_trans by blast
    from i5 extends_brk[OF e2] have r2: "sarr ret < brk h2" by simp
    from go_append_inv[OF e c2 b2 fv bhc i4 r2 b ga]
    show "?P st'" by (simp add: st')
  qed
  then show ?thesis by simp
qed

lemma handlerMap_Suc_fresh:
  assumes IH0: "\<forall>h v ct v' h'. clean h \<longrightarrow> built_since b h \<longrightarrow> b \<le> brk h \<longrightarrow>
                 handlerVal n gc h v ct = Some (v', h') \<longrightarrow>
                 handler_ok b h h' \<and> fresh_val (brk h) h' v'"
      and cl: "clean h" and bs: "built_since b h" and b: "b \<le> brk h"
      and run: "handlerMap (Suc n) gc h js ct = Some (r, h')"
  shows "handler_ok b h h' \<and> brk h \<le> r \<and> r < brk h'"
proof -
  have IH: "\<And>h v ct v' h'. clean h \<Longrightarrow> built_since b h \<Longrightarrow> b \<le> brk h \<Longrightarrow>
                 handlerVal n gc h v ct = Some (v', h') \<Longrightarrow>
                 handler_ok b h h' \<and> fresh_val (brk h) h' v'"
    using IH0 by blast
  obtain ret h0 where nm: "new_map h [] = (ret, h0)" by (cases "new_map h []")
  from new_map_inv[OF cl bs nm] have e0: "extends h h0" and c0: "clean h0"
    and b0: "built_since b h0" and ret: "ret = brk h" and brk0: "brk h0 = Suc (brk h)"
    by simp_all
  have r0: "brk h \<le> ret" "ret < brk h0" using ret brk0 by simp_all
  let ?body = "\<lambda>(key, v) h1.
                 case handlerVal n gc h1 v ct of
                   None \<Rightarrow> None
                 | Some (v', h2) \<Rightarrow>
                     Some (h2\<lparr>maps := (maps h2)(ret := AList.update key v' (maps h2 ret))\<rparr>)"
  have loop_ok: "extends h h' \<and> clean h' \<and> built_since b h' \<and> ret < brk h'"
    if "range_loop ?body es h0 = Some h'" for es
    using handlerMap_loop_fresh[OF IH that e0 c0 b0 r0 b] by simp
  have "r = ret \<and> extends h h' \<and> clean h' \<and> built_since b h' \<and> ret < brk h'"
  proof (cases "dict_of js")
    case None
    with run nm have "r = ret \<and> h' = h0"
      by (cases js) (simp_all add: dict_of_def)
    with e0 c0 b0 r0 show ?thesis by simp
  next
    case (Some a)
    with run nm have "r = ret \<and> range_loop ?body (maps h0 a) h0 = Some h'"
      by (cases js) (auto simp: dict_of_def)
    with loop_ok show ?thesis by blast
  qed
  with r0 show ?thesis by (simp add: handler_ok_def)
qed

lemma handlerSlice_Suc_fresh:
  assumes IH0: "\<forall>h v ct v' h'. clean h \<longrightarrow> built_since b h \<longrightarrow> b \<le> brk h \<longrightarrow>
                 handlerVal n gc h v ct = Some (v', h') \<longrightarrow>
                 handler_ok b h h' \<and> fresh_val (brk h) h' v'"
      and cl: "clean h" and bs: "built_since b h" and b: "b \<le> brk h"
      and run: "handlerSlice (Suc n) gc h js ct = Some (r, h')"
  shows "handler_ok b h h' \<and> brk h \<le> sarr r \<and> sarr r < brk h'"
proof -
  have IH: "\<And>h v ct v' h'. clean h \<Longrightarrow> built_since b h \<Longrightarrow> b \<le> brk h \<Longrightarrow>
                 handlerVal n gc h v ct = Some (v', h') \<Longrightarrow>
                 handler_ok b h h' \<and> fresh_val (brk h) h' v'"
    using IH0 by blast
  obtain a0 h0 where na: "new_array h [] = (a0, h0)" by (cases "new_array h []")
  from new_array_inv[OF cl bs na] have e0: "extends h h0" and c0: "clean h0"
    and b0: "built_since b h0" and a0: "a0 = brk h" and brk0: "brk h0 = Suc (brk h)"
    by simp_all
  have r0: "brk h \<le> sarr (Slice a0 0 0 0)" "sarr (Slice a0 0 0 0) < brk h0"
    using a0 brk0 by simp_all
  let ?body = "\<lambda>s i (ret, h1).
                 case handlerVal n gc h1 (arrays h1 (sarr s) ! (soff s + i)) ct of
                   None \<Rightarrow> None
                 | Some (v', h2) \<Rightarrow> Some (go_append gc h2 ret [v'])"
  have loop_ok: "extends h h' \<and> clean h' \<and> built_since b h' \<and> brk h \<le> sarr r \<and> sarr r < brk h'"
    if "range_loop (?body s) is (Slice a0 0 0 0, h0) = Some (r, h')" for s "is"
    using handlerSlice_loop_fresh[OF IH that e0 c0 b0 r0 b] by simp
  have "extends h h' \<and> clean h' \<and> built_since b h' \<and> brk h \<le> sarr r \<and> sarr r < brk h'"
  proof (cases "seq_of js")
    case None
    with run na have "r = Slice a0 0 0 0 \<and> h' = h0"
      by (cases js) (simp_all add: seq_of_def)
    with e0 c0 b0 r0 show ?thesis by simp
  next
    case (Some s)
    with run na have "range_loop (?body s) [0 ..< slen s] (Slice a0 0 0 0, h0) = Some (r, h')"
      by (cases js) (auto simp: seq_of_def)
    with loop_ok show ?thesis by blast
  qed
  then show ?thesis by (simp add: handler_ok_def)
qed

lemma handlerVal_Suc_fresh:
  assumes IHm0: "\<forall>h js ct r h'. clean h \<longrightarrow> built_since b h \<longrightarrow> b \<le> brk h \<longrightarrow>
                 handlerMap n gc h js ct = Some (r, h') \<longrightarrow>
                 handler_ok b h h' \<and> brk h \<le> r \<and> r < brk h'"
      and IHs0: "\<forall>h js ct r h'. clean h \<longrightarrow> built_since b h \<longrightarrow> b \<le> brk h \<longrightarrow>
                 handlerSlice n gc h js ct = Some (r, h') \<longrightarrow>
                 handler_ok b h h' \<and> brk h \<le> sarr r \<and> sarr r < brk h'"
      and cl: "clean h" and bs: "built_since b h" and b: "b \<le> brk h"
      and run: "handlerVal (Suc n) gc h v ct = Some (v', h')"
  shows "handler_ok b h h' \<and> fresh_val (brk h) h' v'"
proof -
  have IHm: "\<And>js ct r h'. handlerMap n gc h js ct = Some (r, h') \<Longrightarrow>
                 handler_ok b h h' \<and> brk h \<le> r \<and> r < brk h'"
    using IHm0 cl bs b by blast
  have IHs: "\<And>js ct r h'. handlerSlice n gc h js ct = Some (r, h') \<Longrightarrow>
                 handler_ok b h h' \<and> brk h \<le> sarr r \<and> sarr r < brk h'"
    using IHs0 cl bs b by blast
  note same = handler_ok_refl[OF cl bs]
  consider (dict) "dict_of v \<noteq> None" | (seq) "seq_of v \<noteq> None"
    | (leaf) "dict_of v = None" "seq_of v = None"
    by blast
  then show ?thesis
  proof cases
    case dict
    with run obtain r where "handlerMap n gc h v ct = Some (r, h')" and "v' = VDict r"
      by (cases v) (auto simp: dict_of_def split: option.splits)
    with IHm show ?thesis by (auto simp: fresh_val_def container_at_def)
  next
    case seq
    with run obtain r where "handlerSlice n gc h v ct = Some (r, h')" and "v' = VList r"
      by (cases v) (auto simp: seq_of_def split: option.splits)
    with IHs show ?thesis by (auto simp: fresh_val_def container_at_def)
  next
    case leaf
    with run have "h' = h \<and> container_at v' = None"
      by (cases v) (auto simp: dict_of_def seq_of_def container_at_def)
    with same show ?thesis by (simp add: fresh_val_def)
  qed
qed

lemma handlers_fresh:
  "(\<forall>h v ct v' h'. clean h \<longrightarrow> built_since b h \<longrightarrow> b \<le> brk h \<longrightarrow>
       handlerVal n gc h v ct = Some (v', h') \<longrightarrow>
       handler_ok b h h' \<and> fresh_val (brk h) h' v')
   \<and> (\<forall>h js ct r h'. clean h \<longrightarrow> built_since b h \<longrightarrow> b \<le> brk h \<longrightarrow>
       handlerMap n gc h js ct = Some (r, h') \<longrightarrow>
       handler_ok b h h' \<and> brk h \<le> r \<and> r < brk h')
   \<and> (\<forall>h js ct r h'. clean h \<longrightarrow> built_since b h \<longrightarrow> b \<le> brk h \<longrightarrow>
       handlerSlice n gc h js ct = Some (r, h') \<longrightarrow>
       handler_ok b h h' \<and> brk h \<le> sarr r \<and> sarr r < brk h')"
proof (induction n)
  case 0
  show ?case by simp
next
  case (Suc n)
  then have IHv: "\<forall>h v ct v' h'. clean h \<longrightarrow> built_since b h \<longrightarrow> b \<le> brk h \<longrightarrow>
                 handlerVal n gc h v ct = Some (v', h') \<longrightarrow>
                 handler_ok b h h' \<and> fresh_val (brk h) h' v'"
    and IHm: "\<forall>h js ct r h'. clean h \<longrightarrow> built_since b h \<longrightarrow> b \<le> brk h \<longrightarrow>
                 handlerMap n gc h js ct = Some (r, h') \<longrightarrow>
                 handler_ok b h h' \<and> brk h \<le> r \<and> r < brk h'"
    and IHs: "\<forall>h js ct r h'. clean h \<longrightarrow> built_since b h \<longrightarrow> b \<le> brk h \<longrightarrow>
                 handlerSlice n gc h js ct = Some (r, h') \<longrightarrow>
                 handler_ok b h h' \<and> brk h \<le> sarr r \<and> sarr r < brk h'"
    by simp_all
  show ?case
  proof (intro conjI allI impI)
    fix h v ct v' h'
    assume a: "clean h" "built_since b h" "b \<le> brk h"
      "handlerVal (Suc n) gc h v ct = Some (v', h')"
    from handlerVal_Suc_fresh[OF IHm IHs a]
    show "handler_ok b h h'" and "fresh_val (brk h) h' v'" by simp_all
  next
    fix h js ct r h'
    assume a: "clean h" "built_since b h" "b \<le> brk h"
      "handlerMap (Suc n) gc h js ct = Some (r, h')"
    from handlerMap_Suc_fresh[OF IHv a]
    show "handler_ok b h h'" and "brk h \<le> r" and "r < brk h'" by simp_all
  next
    fix h js ct r h'
    assume a: "clean h" "built_since b h" "b \<le> brk h"
      "handlerSlice (Suc n) gc h js ct = Some (r, h')"
    from handlerSlice_Suc_fresh[OF IHv a]
    show "handler_ok b h h'" and "brk h \<le> sarr r" and "sarr r < brk h'" by simp_all
  qed
qed

lemma handlerMap_fresh:
  assumes "clean h" and "built_since b h" and "b \<le> brk h"
      and "handlerMap n gc h js ct = Some (r, h')"
  shows "handler_ok b h h'" and "brk h \<le> r" and "r < brk h'"
proof -
  note all = handlers_fresh[of b n gc, THEN conjunct2, THEN conjunct1, rule_format]
  from all[OF assms] show "handler_ok b h h'" and "brk h \<le> r" and "r < brk h'"
    by simp_all
qed

lemma handlerSlice_fresh:
  assumes "clean h" and "built_since b h" and "b \<le> brk h"
      and "handlerSlice n gc h js ct = Some (r, h')"
  shows "handler_ok b h h'" and "brk h \<le> sarr r" and "sarr r < brk h'"
proof -
  note all = handlers_fresh[of b n gc, THEN conjunct2, THEN conjunct2, rule_format]
  from all[OF assms] show "handler_ok b h h'" and "brk h \<le> sarr r" and "sarr r < brk h'"
    by simp_all
qed

lemma reach_fresh:
  assumes bs: "built_since b h" and fv: "fresh_val b h v" and a: "a \<in> reach h v"
  shows "b \<le> a \<and> a < brk h"
  using a
proof (induction rule: reach.induct)
  case (root a)
  with fv show ?case by (simp add: fresh_val_def)
next
  case (step a x c)
  with bs show ?case by (auto simp: built_since_def)
qed

lemma clean_built_since: "clean h \<Longrightarrow> built_since (brk h) h"
  by (auto simp: clean_def built_since_def stored_def)

lemma NewJson_container:
  "dict_of v \<noteq> None \<or> seq_of v \<noteq> None \<Longrightarrow>
   NewJson dec h v = (brk h, h\<lparr>nodes := (nodes h)(brk h := empty_GoJson\<lparr>data := v\<rparr>),
                              brk := Suc (brk h)\<rparr>)"
  by (cases v) (simp_all add: NewJson_def NewJsonFromData_def new_node_def dict_of_def seq_of_def)

lemma rebuild_fresh:
  assumes cl: "clean h"
      and run: "handlerMap fuel gc h v ct = Some (r, h1) \<and> d = VDict r
                \<or> handlerSlice fuel gc h v ct = Some (s, h1) \<and> d = VList s"
      and nj: "NewJson dec h1 d = (c, h')"
  shows "brk h \<le> c \<and> data (nodes h' c) = d
         \<and> (\<forall>a. a < brk h \<longrightarrow> maps h' a = maps h a \<and> arrays h' a = arrays h a
                                  \<and> nodes h' a = nodes h a)
         \<and> (\<forall>a. a \<in> reach h' d \<longrightarrow> brk h \<le> a)"
proof -
  note bs = clean_built_since[OF cl]
  have ok: "handler_ok (brk h) h h1" and fv: "fresh_val (brk h) h1 d"
  proof -
    from run show "handler_ok (brk h) h h1"
    proof (elim disjE conjE)
      assume "handlerMap fuel gc h v ct = Some (r, h1)"
      from handlerMap_fresh(1)[OF cl bs le_refl this] show ?thesis .
    next
      assume "handlerSlice fuel gc h v ct = Some (s, h1)"
      from handlerSlice_fresh(1)[OF cl bs le_refl this] show ?thesis .
    qed
    from run show "fresh_val (brk h) h1 d"
    proof (elim disjE conjE)
      assume hm: "handlerMap fuel gc h v ct = Some (r, h1)" and d: "d = VDict r"
      from handlerMap_fresh(2,3)[OF cl bs le_refl hm] d
      show ?thesis by (simp add: fresh_val_def container_at_def)
    next
      assume hs: "handlerSlice fuel gc h v ct = Some (s, h1)" and d: "d = VList s"
      from handlerSlice_fresh(2,3)[OF cl bs le_refl hs] d
      show ?thesis by (simp add: fresh_val_def container_at_def)
    qed
  qed
  from ok have ex: "extends h h1" and bs1: "built_since (brk h) h1"
    by (simp_all add: handler_ok_def)
  from run have shape: "dict_of d \<noteq> None \<or> seq_of d \<noteq> None"
    by (auto simp: dict_of_def seq_of_def)
  have "(c, h') = (brk h1, h1\<lparr>nodes := (nodes h1)(brk h1 := empty_GoJson\<lparr>data := d\<rparr>),
                     brk := Suc (brk h1)\<rparr>)"
    unfolding nj[symmetric] by (rule NewJson_container[OF shape])
  then have c: "c = brk h1"
    and h': "h' = h1\<lparr>nodes := (nodes h1)(brk h1 := empty_GoJson\<lparr>data := d\<rparr>),
                     brk := Suc (brk h1)\<rparr>"
    by (simp_all only: prod.inject)
  have "brk h \<le> c" using c ex by (simp add: extends_def)
  moreover have "data (nodes h' c) = d" by (simp add: c h')
  moreover have "\<forall>a. a < brk h \<longrightarrow> maps h' a = maps h a \<and> arrays h' a = arrays h a
                                  \<and> nodes h' a = nodes h a"
    using ex by (auto simp: h' extends_def)
  moreover have "\<forall>a. a \<in> reach h' d \<longrightarrow> brk h \<le> a"
  proof (intro allI impI)
    fix a assume a: "a \<in> reach h' d"
    have st: "stored h' x = stored h1 x" for x by (simp add: h' stored_def)
    have bs': "built_since (brk h) h'"
      unfolding built_since_def
    proof (intro allI impI)
      fix x v c
      assume "brk h \<le> x" and "v \<in> stored h' x" and "container_at v = Some c"
      with bs1 have "brk h \<le> c \<and> c < brk h1" unfolding built_since_def st by blast
      then show "brk h \<le> c \<and> c < brk h'" by (simp add: h')
    qed
    have fv': "fresh_val (brk h) h' d"
      using fv by (auto simp: fresh_val_def h' intro: less_SucI)
    from reach_fresh[OF bs' fv' a] show "brk h \<le> a" by simp
  qed
  ultimately show ?thesis by blast
qed

text \<open>
  For a node whose value is a sequence or a mapping, \<^verbatim>\<open>Clone\<close> and \<^verbatim>\<open>ShortNiceJson\<close>, when
  they return, leave every object of the input heap as it was, and no map or array
  that can be reached from the result is one of the input.
\<close>

lemma Clone_fresh:
  assumes cl: "clean h" and shape: "IsSlice j \<or> IsMap j"
      and run: "Clone dec gc fuel h j = Some (c, h')"
  shows "brk h \<le> c
         \<and> (\<forall>a. a < brk h \<longrightarrow> maps h' a = maps h a \<and> arrays h' a = arrays h a
                                  \<and> nodes h' a = nodes h a)
         \<and> (\<forall>a. a \<in> reach h' (data (nodes h' c)) \<longrightarrow> brk h \<le> a)"
proof (cases "IsSlice j")
  case True
  with run obtain s h1 where hs: "handlerSlice fuel gc h (data j) False = Some (s, h1)"
    and nj: "NewJson dec h1 (VList s) = (c, h')"
    by (auto simp: Clone_def split: option.splits)
  from rebuild_fresh[OF cl _ nj, of fuel gc "data j" False 0 s] hs
  show ?thesis by simp
next
  case False
  with shape run obtain r h1 where hm: "handlerMap fuel gc h (data j) False = Some (r, h1)"
    and nj: "NewJson dec h1 (VDict r) = (c, h')"
    by (auto simp: Clone_def split: option.splits)
  from rebuild_fresh[OF cl _ nj, of fuel gc "data j" False r "Slice 0 0 0 0"] hm
  show ?thesis by simp
qed

lemma ShortNiceJson_fresh:
  assumes cl: "clean h" and shape: "IsSlice j \<or> IsMap j"
      and run: "ShortNiceJson dec gc fuel h j = Some (c, h')"
  shows "brk h \<le> c
         \<and> (\<forall>a. a < brk h \<longrightarrow> maps h' a = maps h a \<and> arrays h' a = arrays h a
                                  \<and> nodes h' a = nodes h a)
         \<and> (\<forall>a. a \<in> reach h' (data (nodes h' c)) \<longrightarrow> brk h \<le> a)"
proof (cases "IsSlice j")
  case True
  with run obtain s h1 where hs: "handlerSlice fuel gc h (data j) True = Some (s, h1)"
    and nj: "NewJson dec h1 (VList s) = (c, h')"
    by (auto simp: ShortNiceJson_def split: option.splits)
  from rebuild_fresh[OF cl _ nj, of fuel gc "data j" True 0 s] hs
  show ?thesis by simp
next
  case False
  with shape run obtain r h1 where hm: "handlerMap fuel gc h (data j) True = Some (r, h1)"
    and nj: "NewJson dec h1 (VDict r) = (c, h')"
    by (auto simp: ShortNiceJson_def split: option.splits)
  from rebuild_fresh[OF cl _ nj, of fuel gc "data j" True r "Slice 0 0 0 0"] hm
  show ?thesis by simp
qed

section \<open>The claims\<close>

text \<open>
  C1, as stated, fails: after \<^verbatim>\<open>Get("a").Append(4)\<close> on \<^verbatim>\<open>{"a": [1,2,3]}\<close> the parent's map
  holds under \<^verbatim>\<open>"a"\<close> the new raw slice and not the node. \<^verbatim>\<open>maintainParent\<close> passes the
  node to \<^verbatim>\<open>Set\<close>, but \<^verbatim>\<open>setMap\<close> and \<^verbatim>\<open>setSlice\<close> replace a node by its value before they
  store it.
\<close>

theorem Append_parent_slot_counterexample:
  "(case Get nested_doc 2 ''a'' of
      (c, h1) \<Rightarrow>
        (case Append grow2 h1 c (VNumber ''4'') of
           Inl e \<Rightarrow> False
         | Inr (r, h2) \<Rightarrow>
             parent_slot h2 c = Some (VSlice (Slice 4 0 4 6))
             \<and> parent_slot h2 c \<noteq> Some (VNode c)))"
  by (simp add: eval_defs nested_doc_def parent_slot_def)

text \<open>
  C1, amended: for a sequence-shaped node whose parent's value is a raw map or a raw
  slice (there with the remembered index inside the parent), \<^verbatim>\<open>Append\<close> succeeds, and
  afterwards the parent's container holds, under the remembered key or index, the
  node's new value, the sequence one longer, and not the node itself.
\<close>

theorem Append_writes_back_value:
  "seq_of (data (nodes h ja)) = Some s \<and> slice_ok h s \<and> prev (nodes h ja) = Some p
     \<and> is_raw (data (nodes h p)) \<and> parent_index_ok h ja \<Longrightarrow>
   \<exists>h' s'. Append gc h ja x = Inr (ja, h')
      \<and> seq_of (data (nodes h' ja)) = Some s'
      \<and> slen s' = slen s + 1
      \<and> parent_slot h' ja = Some (data (nodes h' ja))
      \<and> parent_slot h' ja \<noteq> Some (VNode ja)"
proof -
  assume a: "seq_of (data (nodes h ja)) = Some s \<and> slice_ok h s \<and> prev (nodes h ja) = Some p
     \<and> is_raw (data (nodes h p)) \<and> parent_index_ok h ja"
  then have seq: "seq_of (data (nodes h ja)) = Some s" and ok: "slice_ok h s"
    and pp: "prev (nodes h ja) = Some p" and raw: "is_raw (data (nodes h p))"
    and pio: "parent_index_ok h ja" by simp_all
  obtain s' h1 where ga: "go_append gc h s [unwrap h (unwrap h x)] = (s', h1)"
    by (cases "go_append gc h s [unwrap h (unwrap h x)]")
  from Append_seq[OF seq ga] obtain d where d: "seq_of d = Some s'"
    and app: "Append gc h ja x =
               (case maintainParent (set_data h1 ja d) ja of
                  Inl e \<Rightarrow> Inl e | Inr h2 \<Rightarrow> Inr (ja, h2))" by blast
  let ?h2 = "set_data h1 ja d"
  have nodes1: "nodes h1 = nodes h" using go_append_frame(2)[OF ga] .
  have len: "slen s' = slen s + 1" using go_append_slen[OF ga] by simp
  have pp2: "prev (nodes ?h2 ja) = Some p" using pp by (simp add: set_data_simps nodes1)
  have dj2: "data (nodes ?h2 ja) = d" by (simp add: set_data_simps)
  have key2: "prevKey (nodes ?h2 ja) = prevKey (nodes h ja)"
    and idx2: "prevIndex (nodes ?h2 ja) = prevIndex (nodes h ja)"
    by (simp_all add: set_data_simps nodes1)
  from is_raw_cases[OF raw]
  have "\<exists>h3. maintainParent ?h2 ja = Inr h3 \<and> nodes h3 = nodes ?h2
          \<and> parent_slot h3 ja = Some d"
  proof (elim disjE exE)
    fix a assume pm: "data (nodes h p) = VMap a"
    with seq have "p \<noteq> ja" by (auto simp: seq_of_def)
    with pm have pm2: "data (nodes ?h2 p) = VMap a" by (simp add: set_data_simps nodes1)
    let ?h3 = "?h2\<lparr>maps := (maps ?h2)(a := AList.update (prevKey (nodes ?h2 ja))
                 (data (nodes ?h2 ja)) (maps ?h2 a))\<rparr>"
    have mp: "maintainParent ?h2 ja = Inr ?h3" using maintainParent_map[OF pp2 pm2] .
    have "parent_slot ?h3 ja = Some d"
      using pp2 pm2 dj2 by (simp add: parent_slot_def update_conv')
    with mp show ?thesis by auto
  next
    fix ps assume ps: "data (nodes h p) = VSlice ps"
    with pp pio have neq: "p \<noteq> ja" and okp: "slice_ok h ps"
      and rng: "0 \<le> prevIndex (nodes h ja) \<and> prevIndex (nodes h ja) < int (slen ps)"
      by (simp_all add: parent_index_ok_def)
    from neq ps have ps2: "data (nodes ?h2 p) = VSlice ps" by (simp add: set_data_simps nodes1)
    let ?k = "soff ps + nat (prevIndex (nodes h ja))"
    let ?h3 = "?h2\<lparr>arrays := (arrays ?h2)(sarr ps := (arrays ?h2 (sarr ps))[?k := d])\<rparr>"
    have mp: "maintainParent ?h2 ja = Inr ?h3"
      using maintainParent_slice[OF pp2 ps2] rng by (simp add: idx2 dj2)
    have "slice_ok h1 ps" using go_append_keeps_ok[OF ok okp ga] .
    with rng have "?k < length (arrays ?h2 (sarr ps))"
      by (auto simp: slice_ok_def set_data_simps)
    then have "parent_slot ?h3 ja = Some d"
      using pp2 ps2 rng by (simp add: parent_slot_def slice_index_def idx2)
    with mp show ?thesis by auto
  qed
  then obtain h3 where mp: "maintainParent ?h2 ja = Inr h3" and nd: "nodes h3 = nodes ?h2"
    and slot: "parent_slot h3 ja = Some d" by blast
  have "Append gc h ja x = Inr (ja, h3)" using app mp by simp
  moreover have dj3: "data (nodes h3 ja) = d" using nd dj2 by simp
  moreover have "d \<noteq> VNode ja" using d by (rule seq_of_not_node)
  ultimately show ?thesis using d len slot by auto
qed

theorem Append_writes_back_value_witness:
  "seq_of (data (nodes (snd (Get nested_doc 2 ''a'')) 3)) = Some (Slice 1 0 3 3)
   \<and> slice_ok (snd (Get nested_doc 2 ''a'')) (Slice 1 0 3 3)
   \<and> prev (nodes (snd (Get nested_doc 2 ''a'')) 3) = Some 2
   \<and> is_raw (data (nodes (snd (Get nested_doc 2 ''a'')) 2))
   \<and> parent_index_ok (snd (Get nested_doc 2 ''a'')) 3
   \<and> (\<exists>h' s'. Append grow2 (snd (Get nested_doc 2 ''a'')) 3 (VNumber ''4'') = Inr (3, h')
         \<and> seq_of (data (nodes h' 3)) = Some s'
         \<and> slen s' = 4
         \<and> parent_slot h' 3 = Some (data (nodes h' 3))
         \<and> parent_slot h' 3 \<noteq> Some (VNode 3))"
proof -
  let ?h = "snd (Get nested_doc 2 ''a'')"
  have hyp: "seq_of (data (nodes ?h 3)) = Some (Slice 1 0 3 3)
     \<and> slice_ok ?h (Slice 1 0 3 3) \<and> prev (nodes ?h 3) = Some 2
     \<and> is_raw (data (nodes ?h 2)) \<and> parent_index_ok ?h 3"
    by (simp add: eval_defs nested_doc_def seq_of_def slice_ok_def is_raw_def parent_index_ok_def)
  from Append_writes_back_value[OF hyp, of grow2 "VNumber ''4''"] hyp
  show ?thesis by simp
qed

text \<open>
  C2. The claim: \<^verbatim>\<open>Index(i)\<close> never panics; out of range on a sequence, or on a value that
  is no sequence, it returns a child with a nil value. The code: \<^verbatim>\<open>getSlice\<close> indexes
  the slice with no bounds check, so on a sequence of length \<open>n\<close> every \<open>i\<close> outside
  \<open>0 \<le> i < n\<close> is a run-time panic (for \<^verbatim>\<open>[1,2,3]\<close> and \<open>i = 5\<close> in the witness). Only
  the second half holds: a value that is no sequence gives the nil child linked to the
  receiver.
\<close>

theorem Index_out_of_range:
  "(seq_of (data (nodes h ja)) = Some s \<and> (i < 0 \<or> int (slen s) \<le> i)
      \<longrightarrow> Index h ja i = Inl IndexOutOfRange)
   \<and> (seq_of (data (nodes h ja)) = None
      \<longrightarrow> Index h ja i =
            Inr (new_node h \<lparr>prev = Some ja, prevKey = [], prevIndex = i, data = VNil\<rparr>))"
proof (intro conjI impI)
  assume "seq_of (data (nodes h ja)) = Some s \<and> (i < 0 \<or> int (slen s) \<le> i)"
  then have "data (nodes h ja) = VSlice s \<or> data (nodes h ja) = VList s"
    and "\<not> (0 \<le> i \<and> i < int (slen s))"
    using seq_of_cases by auto
  then show "Index h ja i = Inl IndexOutOfRange"
    by (auto simp: Index_def getSlice_def slice_index_def)
next
  assume "seq_of (data (nodes h ja)) = None"
  then show "Index h ja i =
            Inr (new_node h \<lparr>prev = Some ja, prevKey = [], prevIndex = i, data = VNil\<rparr>)"
    by (cases "data (nodes h ja)") (simp_all add: Index_def getSlice_def seq_of_def)
qed

theorem Index_out_of_range_witness:
  "seq_of (data (nodes list_doc 1)) = Some (Slice 0 0 3 3) \<and> int (slen (Slice 0 0 3 3)) \<le> 5
   \<and> Index list_doc 1 5 = Inl IndexOutOfRange
   \<and> seq_of (data (nodes null_doc 1)) = None
   \<and> Index null_doc 1 5 =
        Inr (new_node null_doc \<lparr>prev = Some 1, prevKey = [], prevIndex = 5, data = VNil\<rparr>)"
proof -
  have a: "seq_of (data (nodes list_doc 1)) = Some (Slice 0 0 3 3)"
    by (simp add: eval_defs list_doc_def seq_of_def)
  have b: "seq_of (data (nodes null_doc 1)) = None"
    by (simp add: eval_defs null_doc_def seq_of_def)
  from Index_out_of_range[of list_doc 1 "Slice 0 0 3 3" 5] a
  have "Index list_doc 1 5 = Inl IndexOutOfRange" by simp
  moreover from Index_out_of_range[of null_doc 1 "Slice 0 0 3 3" 5] b
  have "Index null_doc 1 5 =
        Inr (new_node null_doc \<lparr>prev = Some 1, prevKey = [], prevIndex = 5, data = VNil\<rparr>)"
    by simp
  ultimately show ?thesis using a b by simp
qed

text \<open>
  C3. The claim: \<^verbatim>\<open>Keys()\<close> returns the keys whenever the value is a mapping and aborts
  exactly when it is non-nil and no mapping. The code asserts the type
  \<^verbatim>\<open>map[string]interface{}\<close> only, so a \<^verbatim>\<open>Dict\<close>, for which \<^verbatim>\<open>IsMap\<close> is true, panics.
  A raw map gives its keys in the iteration order, a nil value the empty list.
\<close>

theorem Keys_Dict_panics:
  "Keys h (j\<lparr>data := VDict a\<rparr>) = Inl InputInvalid
   \<and> IsMap (j\<lparr>data := VDict a\<rparr>)
   \<and> Keys h (j\<lparr>data := VMap a\<rparr>) = Inr (map fst (maps h a))
   \<and> Keys h (j\<lparr>data := VNil\<rparr>) = Inr []"
  by (simp add: Keys_def IsMap_def)

text \<open>
  C4, as stated, fails: in \<^verbatim>\<open>{"a": null}\<close> the key is present and the value is a mapping,
  yet \<^verbatim>\<open>Get("a").IsNil()\<close> is true.
\<close>

theorem Get_IsNil_counterexample:
  "\<not> (IsNil (nodes (snd (Get null_doc 1 ''a'')) (fst (Get null_doc 1 ''a'')))
        \<longleftrightarrow> (map_of (maps null_doc 0) ''a'' = None \<or> \<not> IsMap (nodes null_doc 1)))"
  by (simp add: eval_defs null_doc_def IsNil_def IsMap_def)

text \<open>
  C4, amended: \<^verbatim>\<open>Get(k).IsNil()\<close> is true if and only if the value is no mapping, or \<open>k\<close>
  is absent from the mapping, or \<open>k\<close> is present with a nil value.
\<close>

theorem Get_IsNil_iff:
  "Get h ja k = (c, h') \<Longrightarrow>
   IsNil (nodes h' c) \<longleftrightarrow>
     (case dict_of (data (nodes h ja)) of
        None \<Rightarrow> True
      | Some a \<Rightarrow> map_of (maps h a) k = None \<or> map_of (maps h a) k = Some VNil)"
  by (cases "data (nodes h ja)")
     (auto simp: Get_def getMap_def map_index_def new_node_def IsNil_def dict_of_def
           split: option.splits)

theorem Get_IsNil_iff_witness:
  "Get null_doc 1 ''a'' = (2, snd (Get null_doc 1 ''a''))
   \<and> IsNil (nodes (snd (Get null_doc 1 ''a'')) 2)
   \<and> dict_of (data (nodes null_doc 1)) = Some 0
   \<and> map_of (maps null_doc 0) ''a'' = Some VNil"
proof -
  have g: "Get null_doc 1 ''a'' = (2, snd (Get null_doc 1 ''a''))"
    by (simp add: eval_defs null_doc_def)
  have d: "dict_of (data (nodes null_doc 1)) = Some 0"
    by (simp add: eval_defs null_doc_def dict_of_def)
  have m: "map_of (maps null_doc 0) ''a'' = Some VNil"
    by (simp add: eval_defs null_doc_def)
  from Get_IsNil_iff[OF g] d m
  have "IsNil (nodes (snd (Get null_doc 1 ''a'')) 2)" by simp
  with g d m show ?thesis by simp
qed

text \<open>
  C5. The claim: every numeric width variant is coerced by \<^verbatim>\<open>Int()\<close> and \<^verbatim>\<open>Float64()\<close>, and
  an unsigned value above the largest signed one is an overflow error, never a
  wrap-around. The code: the case list of \<^verbatim>\<open>ToFloat64\<close> leaves out \<^verbatim>\<open>int32\<close>, so
  \<^verbatim>\<open>Float64()\<close> of an \<^verbatim>\<open>int32\<close> is an error although \<^verbatim>\<open>Int()\<close> of it succeeds; and
  \<^verbatim>\<open>ToInt\<close> checks the range for \<^verbatim>\<open>uint64\<close> but not for \<^verbatim>\<open>uint\<close>, so the \<^verbatim>\<open>uint\<close> value
  \<open>2^63\<close> comes back as \<open>- 2^63\<close>. The two examples of the claim hold:
  \<^verbatim>\<open>ToFloat64\<close> of the \<^verbatim>\<open>uint64\<close> 10 is the float of 10, and \<^verbatim>\<open>uint64\<close> \<open>2^63\<close>
  overflows.
\<close>

theorem Float64_int32_and_uint_wrap:
  "Float64 fl (j\<lparr>data := VInt32 5\<rparr>) = Inl CannotConvertFloat
   \<and> GoJson_Int fl (j\<lparr>data := VInt32 5\<rparr>) = Inr 5
   \<and> GoJson_Int fl (j\<lparr>data := VUint64 0x8000000000000000\<rparr>) = Inl Overflowed
   \<and> (case GoJson_Int fl (j\<lparr>data := VUint 0x8000000000000000\<rparr>) of
        Inr i \<Rightarrow> sint i | Inl e \<Rightarrow> 0) = - 9223372036854775808
   \<and> ToFloat64 fl (VUint64 10) = Inr (float64_of_int fl 10)"
  by (simp add: Float64_def GoJson_Int_def ToFloat64_def ToInt_def Let_def)

text \<open>
  C6. For every string \<open>s\<close> in a node, \<^verbatim>\<open>Int()\<close> cuts \<open>s\<close> at the first \<^verbatim>\<open>.\<close> and parses
  what is in front of it as an integer; when nothing is in front of it the result is 0
  with no error. So \<^verbatim>\<open>Int\<close> of \<^verbatim>\<open>"42.9"\<close> is 42 and \<^verbatim>\<open>Int\<close> of \<^verbatim>\<open>""\<close> is 0; for a node with
  a nil value \<^verbatim>\<open>Int()\<close> is an error.
\<close>

theorem GoJson_Int_string:
  "GoJson_Int fl (j\<lparr>data := VString s\<rparr>) =
     (let p = takeWhile (\<lambda>c. c \<noteq> CHR ''.'') s
      in if p = [] then Inr 0
         else case Atoi p of Inr i \<Rightarrow> Inr i | Inl e \<Rightarrow> Inl CannotConvertInt)
   \<and> GoJson_Int fl (j\<lparr>data := VString ''42.9''\<rparr>) = Inr 42
   \<and> GoJson_Int fl (j\<lparr>data := VString ''''\<rparr>) = Inr 0
   \<and> GoJson_Int fl (j\<lparr>data := VNil\<rparr>) = Inl NotInt"
proof -
  have pre: "(if CHR ''.'' \<in> set s then takeWhile (\<lambda>c. c \<noteq> CHR ''.'') s else s)
               = takeWhile (\<lambda>c. c \<noteq> CHR ''.'') s"
  proof (cases "CHR ''.'' \<in> set s")
    case True
    then show ?thesis by simp
  next
    case False
    then have "\<forall>c\<in>set s. c \<noteq> CHR ''.''" by blast
    then have "takeWhile (\<lambda>c. c \<noteq> CHR ''.'') s = s"
      by (rule takeWhile_eq_all_conv[THEN iffD2])
    with False show ?thesis by (simp only: if_False)
  qed
  have gen: "GoJson_Int fl (j\<lparr>data := VString s\<rparr>) =
     (let p = takeWhile (\<lambda>c. c \<noteq> CHR ''.'') s
      in if p = [] then Inr 0
         else case Atoi p of Inr i \<Rightarrow> Inr i | Inl e \<Rightarrow> Inl CannotConvertInt)"
    unfolding GoJson_Int_def ToInt_def Let_def using pre by simp
  have a42: "Atoi ''42'' = Inr 42"
    by (simp add: Atoi_def ParseInt_def Let_def is_digit_def digits_val_def digit_val_def)
  have e42: "GoJson_Int fl (j\<lparr>data := VString ''42.9''\<rparr>) = Inr 42"
    by (simp add: GoJson_Int_def ToInt_def Let_def a42)
  have e0: "GoJson_Int fl (j\<lparr>data := VString ''''\<rparr>) = Inr 0"
    by (simp add: GoJson_Int_def ToInt_def Let_def)
  have en: "GoJson_Int fl (j\<lparr>data := VNil\<rparr>) = Inl NotInt"
    by (simp add: GoJson_Int_def)
  from gen e42 e0 en show ?thesis by blast
qed

text \<open>
  C7, as stated, fails: a node argument is unwrapped twice, once by \<^verbatim>\<open>Append\<close> and once
  more by \<^verbatim>\<open>appendSlice\<close>. Appending the node of \<^verbatim>\<open>NewJson(NewJson(5))\<close>, whose value is
  the pointer to the inner node, stores the int 5 and not that value.
\<close>

theorem Append_wrapped_counterexample:
  "(case Append grow2 wrapped_doc 1 (VNode 3) of
      Inl e \<Rightarrow> False
    | Inr (r, h') \<Rightarrow>
        r = 1 \<and> data (nodes h' 1) = VSlice (Slice 4 0 4 6)
        \<and> elems h' (Slice 4 0 4 6) = [VNumber ''1'', VNumber ''2'', VNumber ''3'', VInt 5])
   \<and> Value (nodes wrapped_doc 3) = VNode 2"
  by (simp add: eval_defs wrapped_doc_def list_doc_def)

text \<open>
  C7, amended: for a sequence-shaped node of length \<open>n\<close> whose parent, if it is a raw
  slice, lies on another backing array and holds the remembered index, \<^verbatim>\<open>Append(x)\<close>
  returns the receiver, whose value is then a sequence of length \<open>n + 1\<close>: the old
  elements followed by \<open>x\<close>, where a node argument is replaced by its value, and that
  by its value once more if it is a node again. For a node that is not
  sequence-shaped \<^verbatim>\<open>Append\<close> returns the receiver and changes nothing.
\<close>

theorem Append_tail:
  "(seq_of (data (nodes h ja)) = Some s \<and> slice_ok h s \<and> parent_apart h ja s \<longrightarrow>
      (\<exists>h' s'. Append gc h ja x = Inr (ja, h')
         \<and> seq_of (data (nodes h' ja)) = Some s'
         \<and> slen s' = slen s + 1
         \<and> elems h' s' = elems h s @ [unwrap h (unwrap h x)]))
   \<and> (seq_of (data (nodes h ja)) = None \<longrightarrow> Append gc h ja x = Inr (ja, h))"
proof (intro conjI impI)
  assume "seq_of (data (nodes h ja)) = None"
  then show "Append gc h ja x = Inr (ja, h)" by (rule Append_not_seq)
next
  assume a: "seq_of (data (nodes h ja)) = Some s \<and> slice_ok h s \<and> parent_apart h ja s"
  then have seq: "seq_of (data (nodes h ja)) = Some s" and ok: "slice_ok h s"
    and apart: "parent_apart h ja s" by simp_all
  obtain s' h1 where ga: "go_append gc h s [unwrap h (unwrap h x)] = (s', h1)"
    by (cases "go_append gc h s [unwrap h (unwrap h x)]")
  from Append_seq[OF seq ga] obtain d where d: "seq_of d = Some s'"
    and raw: "is_raw d = is_raw (data (nodes h ja))"
    and app: "Append gc h ja x =
               (case maintainParent (set_data h1 ja d) ja of
                  Inl e \<Rightarrow> Inl e | Inr h2 \<Rightarrow> Inr (ja, h2))" by blast
  let ?h2 = "set_data h1 ja d"
  have nodes1: "nodes h1 = nodes h" using go_append_frame(2)[OF ga] .
  have el1: "elems h1 s' = elems h s @ [unwrap h (unwrap h x)]"
    using go_append_elems[OF ok ga] .
  have len: "slen s' = slen s + 1" using go_append_slen[OF ga] by simp
  have sarr': "sarr s' = sarr s \<or> sarr s' = brk h" using go_append_sarr[OF ga] .
  have side: "sarr ps \<noteq> sarr s' \<and> 0 \<le> prevIndex (nodes ?h2 ja)
                \<and> prevIndex (nodes ?h2 ja) < int (slen ps)"
    if pp: "prev (nodes ?h2 ja) = Some p" and dp: "data (nodes ?h2 p) = VSlice ps" for p ps
  proof (cases "p = ja")
    case True
    with dp have "d = VSlice ps" by (simp add: set_data_simps)
    with raw have "is_raw (data (nodes h ja))" by (simp add: is_raw_def)
    with seq_of_cases[OF seq] have "data (nodes h ja) = VSlice s" by (auto simp: is_raw_def)
    moreover from pp True have "prev (nodes h ja) = Some ja" by (simp add: set_data_simps nodes1)
    ultimately have False using apart by (simp add: parent_apart_def)
    then show ?thesis ..
  next
    case False
    with dp have "data (nodes h p) = VSlice ps" by (simp add: set_data_simps nodes1)
    moreover from pp have "prev (nodes h ja) = Some p" by (simp add: set_data_simps nodes1)
    ultimately have "sarr ps \<noteq> sarr s \<and> sarr ps < brk h \<and> 0 \<le> prevIndex (nodes h ja)
                            \<and> prevIndex (nodes h ja) < int (slen ps)"
      using apart by (simp add: parent_apart_def)
    with sarr' show ?thesis by (auto simp: set_data_simps nodes1)
  qed
  have "\<exists>h'. maintainParent ?h2 ja = Inr h' \<and> arrays h' (sarr s') = arrays ?h2 (sarr s')
            \<and> nodes h' = nodes ?h2"
    by (rule maintainParent_apart) (rule side; assumption)
  then obtain h3 where mp: "maintainParent ?h2 ja = Inr h3"
    and ar: "arrays h3 (sarr s') = arrays ?h2 (sarr s')" and nd: "nodes h3 = nodes ?h2"
    by blast
  have "Append gc h ja x = Inr (ja, h3)" using app mp by simp
  moreover have "seq_of (data (nodes h3 ja)) = Some s'" using nd d by (simp add: set_data_simps)
  moreover have "elems h3 s' = elems h s @ [unwrap h (unwrap h x)]"
    using ar el1 by (simp add: elems_def set_data_simps)
  ultimately show "\<exists>h' s'. Append gc h ja x = Inr (ja, h')
         \<and> seq_of (data (nodes h' ja)) = Some s'
         \<and> slen s' = slen s + 1
         \<and> elems h' s' = elems h s @ [unwrap h (unwrap h x)]"
    using len by blast
qed

theorem Append_tail_witness:
  "seq_of (data (nodes (snd (Get nested_doc 2 ''a'')) 3)) = Some (Slice 1 0 3 3)
   \<and> slice_ok (snd (Get nested_doc 2 ''a'')) (Slice 1 0 3 3)
   \<and> parent_apart (snd (Get nested_doc 2 ''a'')) 3 (Slice 1 0 3 3)
   \<and> (\<exists>h' s'. Append grow2 (snd (Get nested_doc 2 ''a'')) 3 (VNumber ''4'') = Inr (3, h')
         \<and> seq_of (data (nodes h' 3)) = Some s'
         \<and> slen s' = 4
         \<and> elems h' s' = [VNumber ''1'', VNumber ''2'', VNumber ''3'', VNumber ''4''])
   \<and> seq_of (data (nodes null_doc 1)) = None
   \<and> Append grow2 null_doc 1 (VNumber ''4'') = Inr (1, null_doc)"
proof -
  let ?h = "snd (Get nested_doc 2 ''a'')"
  have h1: "seq_of (data (nodes ?h 3)) = Some (Slice 1 0 3 3)"
    by (simp add: eval_defs nested_doc_def seq_of_def)
  have h2: "slice_ok ?h (Slice 1 0 3 3)"
    by (simp add: eval_defs nested_doc_def slice_ok_def)
  have h3: "parent_apart ?h 3 (Slice 1 0 3 3)"
    by (simp add: eval_defs nested_doc_def parent_apart_def)
  have el: "elems ?h (Slice 1 0 3 3) = [VNumber ''1'', VNumber ''2'', VNumber ''3'']"
    by (simp add: eval_defs nested_doc_def)
  have h4: "seq_of (data (nodes null_doc 1)) = None"
    by (simp add: eval_defs null_doc_def seq_of_def)
  have uw: "unwrap ?h (unwrap ?h (VNumber ''4'')) = VNumber ''4''"
    by (simp add: unwrap_def)
  from Append_tail[of ?h 3 "Slice 1 0 3 3" grow2 "VNumber ''4''"] h1 h2 h3
  have "\<exists>h' s'. Append grow2 ?h 3 (VNumber ''4'') = Inr (3, h')
         \<and> seq_of (data (nodes h' 3)) = Some s'
         \<and> slen s' = slen (Slice 1 0 3 3) + 1
         \<and> elems h' s' = elems ?h (Slice 1 0 3 3) @ [unwrap ?h (unwrap ?h (VNumber ''4''))]"
    by blast
  then have "\<exists>h' s'. Append grow2 ?h 3 (VNumber ''4'') = Inr (3, h')
         \<and> seq_of (data (nodes h' 3)) = Some s'
         \<and> slen s' = 4
         \<and> elems h' s' = [VNumber ''1'', VNumber ''2'', VNumber ''3'', VNumber ''4'']"
    unfolding el uw by simp
  moreover from Append_tail[of null_doc 1 "Slice 0 0 0 0" grow2 "VNumber ''4''"] h4
  have "Append grow2 null_doc 1 (VNumber ''4'') = Inr (1, null_doc)" by simp
  ultimately show ?thesis using h1 h2 h3 h4 by blast
qed

text \<open>
  C8. The claim: for every node \<^verbatim>\<open>Clone()\<close> is a structurally equal tree. The code hands
  the value of a node that is neither sequence nor mapping to \<^verbatim>\<open>NewJson\<close>, which decodes
  a string as JSON text instead of wrapping it: the clone of a node with the string
  \<open>s\<close> is whatever the decoder makes of \<open>s\<close>, and the empty node with a nil value when
  \<open>s\<close> is not JSON, as for \<^verbatim>\<open>hello\<close> in the witness.
\<close>

theorem Clone_string_node:
  "Clone dec gc fuel h (j\<lparr>data := VString s\<rparr>) = Some (NewJsonFromString dec h s)
   \<and> (dec h s = None \<longrightarrow> NewJsonFromString dec h s = new_node h empty_GoJson)
   \<and> handlerVal (Suc n) gc h (VString s) False = Some (VString s, h)"
proof -
  have "Clone dec gc fuel h (j\<lparr>data := VString s\<rparr>) = Some (NewJson dec h (VString s))"
    by (simp add: Clone_def IsSlice_def IsMap_def)
  moreover have "NewJson dec h (VString s) = NewJsonFromString dec h s"
    by (simp add: NewJson_def)
  moreover have "dec h s = None \<longrightarrow> NewJsonFromString dec h s = new_node h empty_GoJson"
    by (simp add: NewJsonFromString_def decodeJson_def)
  moreover have "handlerVal (Suc n) gc h (VString s) False = Some (VString s, h)"
    by (simp add: handlerString_def)
  ultimately show ?thesis by simp
qed

theorem Clone_string_node_witness:
  "literal_decoder empty_heap ''hello'' = None
   \<and> Clone literal_decoder grow2 1 empty_heap (empty_GoJson\<lparr>data := VString ''hello''\<rparr>)
       = Some (new_node empty_heap empty_GoJson)
   \<and> data (nodes (snd (new_node empty_heap empty_GoJson))
                  (fst (new_node empty_heap empty_GoJson))) = VNil"
proof -
  have d: "literal_decoder empty_heap ''hello'' = None"
    by (simp add: literal_decoder_def)
  from Clone_string_node[where dec = literal_decoder and gc = grow2 and fuel = 1
         and h = empty_heap and j = empty_GoJson and s = "''hello''"] d
  have "Clone literal_decoder grow2 1 empty_heap (empty_GoJson\<lparr>data := VString ''hello''\<rparr>)
       = Some (new_node empty_heap empty_GoJson)" by simp
  moreover have "data (nodes (snd (new_node empty_heap empty_GoJson))
                  (fst (new_node empty_heap empty_GoJson))) = VNil"
    by (simp add: new_node_def empty_GoJson_def)
  ultimately show ?thesis using d by simp
qed

text \<open>
  C9. The claim: for every node \<^verbatim>\<open>ShortNiceJson()\<close> cuts every string leaf longer than
  120 and leaves the others unchanged. By the same call of \<^verbatim>\<open>NewJson\<close> a node whose
  value is a string is decoded as JSON text: a string of 200 letters is not cut to
  120 and the marker, the result is the empty node with a nil value.
\<close>

theorem ShortNiceJson_string_node:
  "ShortNiceJson dec gc fuel h (j\<lparr>data := VString s\<rparr>) = Some (NewJsonFromString dec h s)
   \<and> (dec h s = None \<longrightarrow> NewJsonFromString dec h s = new_node h empty_GoJson)
   \<and> handlerVal (Suc n) gc h (VString s) True =
         Some (VString (if 120 < length s then take 120 s @ ''......'' else s), h)"
proof -
  have "ShortNiceJson dec gc fuel h (j\<lparr>data := VString s\<rparr>)
          = Some (NewJson dec h (VString s))"
    by (simp add: ShortNiceJson_def IsSlice_def IsMap_def)
  moreover have "NewJson dec h (VString s) = NewJsonFromString dec h s"
    by (simp add: NewJson_def)
  moreover have "dec h s = None \<longrightarrow> NewJsonFromString dec h s = new_node h empty_GoJson"
    by (simp add: NewJsonFromString_def decodeJson_def)
  moreover have "handlerVal (Suc n) gc h (VString s) True =
         Some (VString (if 120 < length s then take 120 s @ ''......'' else s), h)"
    by (simp add: handlerString_def)
  ultimately show ?thesis by simp
qed

theorem ShortNiceJson_string_node_witness:
  "literal_decoder empty_heap (replicate 200 (CHR ''x'')) = None
   \<and> ShortNiceJson literal_decoder grow2 1 empty_heap
        (empty_GoJson\<lparr>data := VString (replicate 200 (CHR ''x''))\<rparr>)
       = Some (new_node empty_heap empty_GoJson)
   \<and> data (nodes (snd (new_node empty_heap empty_GoJson))
                  (fst (new_node empty_heap empty_GoJson))) = VNil
   \<and> handlerString (replicate 200 (CHR ''x'')) True = replicate 120 (CHR ''x'') @ ''......''"
proof -
  have ne: "replicate 200 (CHR ''x'') \<noteq> t" if "length t < 200" for t
    using that by (metis length_replicate less_irrefl)
  have d: "literal_decoder empty_heap (replicate 200 (CHR ''x'')) = None"
    by (simp add: literal_decoder_def ne)
  from ShortNiceJson_string_node[where dec = literal_decoder and gc = grow2 and fuel = 1
         and h = empty_heap and j = empty_GoJson and s = "replicate 200 (CHR ''x'')"] d
  have "ShortNiceJson literal_decoder grow2 1 empty_heap
        (empty_GoJson\<lparr>data := VString (replicate 200 (CHR ''x''))\<rparr>)
       = Some (new_node empty_heap empty_GoJson)" by simp
  moreover have "data (nodes (snd (new_node empty_heap empty_GoJson))
                  (fst (new_node empty_heap empty_GoJson))) = VNil"
    by (simp add: new_node_def empty_GoJson_def)
  moreover have "handlerString (replicate 200 (CHR ''x'')) True
                   = replicate 120 (CHR ''x'') @ ''......''"
    by (simp add: handlerString_def take_replicate)
  ultimately show ?thesis using d by simp
qed

text \<open>
  C10, as stated, fails for \<^verbatim>\<open>Insert\<close>: on the clone of \<^verbatim>\<open>{"a": [1,2]}\<close>, a \<^verbatim>\<open>Dict\<close> holding
  a \<^verbatim>\<open>List\<close>, \<^verbatim>\<open>Get("a").Insert(0, 9)\<close> leaves the parent's entry \<^verbatim>\<open>"a"\<close> the same slice
  header, but \<^verbatim>\<open>append(v[0:index], val)\<close> in \<^verbatim>\<open>insertSlice\<close> has overwritten the backing
  array it shares with the child: the sequence in the parent's container reads
  \<^verbatim>\<open>[1,2]\<close> before and \<^verbatim>\<open>[9,2]\<close> after.
\<close>

theorem Insert_after_Clone_counterexample:
  "(case Clone literal_decoder grow2 4 pair_doc (nodes pair_doc 2) of
      None \<Rightarrow> False
    | Some (root, h0) \<Rightarrow>
        (case Get h0 root ''a'' of
           (c, h1) \<Rightarrow>
             (case Insert grow2 h1 c 0 (VNumber ''9'') of
                Inl e \<Rightarrow> False
              | Inr (r, h2) \<Rightarrow>
                  data (nodes h1 root) = VDict 3
                  \<and> parent_slot h1 c = Some (VList (Slice 6 0 2 2))
                  \<and> elems h1 (Slice 6 0 2 2) = [VNumber ''1'', VNumber ''2'']
                  \<and> data (nodes h2 root) = VDict 3
                  \<and> parent_slot h2 c = Some (VList (Slice 6 0 2 2))
                  \<and> elems h2 (Slice 6 0 2 2) = [VNumber ''9'', VNumber ''2''])))"
  by (simp add: eval_defs handler_defs pair_doc_def parent_slot_def numeral_nat)

text \<open>
  C10, amended: when the parent's value is not a raw map or raw slice (a \<^verbatim>\<open>Dict\<close>, or a
  \<^verbatim>\<open>List\<close> on another backing array than the child's sequence), \<^verbatim>\<open>Append\<close> and \<^verbatim>\<open>Insert\<close>
  change the child's own value (the element appended, or inserted at the index) and
  write nothing back: every map object, the parent's value and the elements of a
  \<^verbatim>\<open>List\<close> parent are as before. After \<^verbatim>\<open>Append\<close> the child's old header, the one the
  parent still holds, also shows the old elements; for \<^verbatim>\<open>Insert\<close> nothing is said
  about them.
\<close>

theorem no_write_back_without_raw_parent:
  "seq_of (data (nodes h ja)) = Some s \<and> slice_ok h s \<and> prev (nodes h ja) = Some p
     \<and> \<not> is_raw (data (nodes h p)) \<and> list_parent_apart h p s \<Longrightarrow>
   (\<exists>h' s'. Append gc h ja x = Inr (ja, h')
        \<and> seq_of (data (nodes h' ja)) = Some s'
        \<and> elems h' s' = elems h s @ [unwrap h (unwrap h x)]
        \<and> maps h' = maps h
        \<and> data (nodes h' p) = data (nodes h p)
        \<and> (\<forall>q. seq_of (data (nodes h p)) = Some q \<longrightarrow> elems h' q = elems h q)
        \<and> elems h' s = elems h s)
   \<and> (0 \<le> i \<and> i \<le> int (slen s) \<longrightarrow>
        (\<exists>h' s'. Insert gc h ja i x = Inr (ja, h')
           \<and> seq_of (data (nodes h' ja)) = Some s'
           \<and> elems h' s' = take (nat i) (elems h s) @ [unwrap h x] @ drop (nat i) (elems h s)
           \<and> maps h' = maps h
           \<and> data (nodes h' p) = data (nodes h p)
           \<and> (\<forall>q. seq_of (data (nodes h p)) = Some q \<longrightarrow> elems h' q = elems h q)))"
proof -
  assume a: "seq_of (data (nodes h ja)) = Some s \<and> slice_ok h s \<and> prev (nodes h ja) = Some p
     \<and> \<not> is_raw (data (nodes h p)) \<and> list_parent_apart h p s"
  then have seq: "seq_of (data (nodes h ja)) = Some s" and ok: "slice_ok h s"
    and pp: "prev (nodes h ja) = Some p" and nraw: "\<not> is_raw (data (nodes h p))"
    and apart: "list_parent_apart h p s" by simp_all
  have neq: "p \<noteq> ja" using not_raw_parent_distinct[OF seq nraw apart] .
  have local: "maintainParent (set_data h1 ja d) ja = Inr (set_data h1 ja d)"
    if "nodes h1 = nodes h" for h1 d
  proof (rule maintainParent_not_raw)
    show "prev (nodes (set_data h1 ja d) ja) = Some p"
      using pp that by (simp add: set_data_simps)
    show "\<not> is_raw (data (nodes (set_data h1 ja d) p))"
      using nraw neq that by (simp add: set_data_simps)
  qed
  have A: "\<exists>h' s'. Append gc h ja x = Inr (ja, h')
        \<and> seq_of (data (nodes h' ja)) = Some s'
        \<and> elems h' s' = elems h s @ [unwrap h (unwrap h x)]
        \<and> maps h' = maps h
        \<and> data (nodes h' p) = data (nodes h p)
        \<and> (\<forall>q. seq_of (data (nodes h p)) = Some q \<longrightarrow> elems h' q = elems h q)
        \<and> elems h' s = elems h s"
  proof -
    obtain s' h1 where ga: "go_append gc h s [unwrap h (unwrap h x)] = (s', h1)"
      by (cases "go_append gc h s [unwrap h (unwrap h x)]")
    from Append_seq[OF seq ga] obtain d where d: "seq_of d = Some s'"
      and app: "Append gc h ja x =
                 (case maintainParent (set_data h1 ja d) ja of
                    Inl e \<Rightarrow> Inl e | Inr h2 \<Rightarrow> Inr (ja, h2))" by blast
    let ?h2 = "set_data h1 ja d"
    have nodes1: "nodes h1 = nodes h" using go_append_frame(2)[OF ga] .
    have "Append gc h ja x = Inr (ja, ?h2)" using app local[OF nodes1] by simp
    moreover have "seq_of (data (nodes ?h2 ja)) = Some s'" using d by (simp add: set_data_simps)
    moreover have "elems ?h2 s' = elems h s @ [unwrap h (unwrap h x)]"
      using go_append_elems[OF ok ga] by (simp add: elems_def set_data_simps)
    moreover have "maps ?h2 = maps h"
      using go_append_frame(1)[OF ga] by (simp add: set_data_simps)
    moreover have "data (nodes ?h2 p) = data (nodes h p)"
      using neq nodes1 by (simp add: set_data_simps)
    moreover have "\<forall>q. seq_of (data (nodes h p)) = Some q \<longrightarrow> elems ?h2 q = elems h q"
    proof (intro allI impI)
      fix q assume "seq_of (data (nodes h p)) = Some q"
      from not_raw_parent_array[OF nraw apart this]
      have "arrays h1 (sarr q) = arrays h (sarr q)" using go_append_frame(4)[OF ga] by simp
      then show "elems ?h2 q = elems h q" by (simp add: elems_def set_data_simps)
    qed
    moreover have "elems ?h2 s = elems h s"
      using go_append_old_view[OF ok ga] by (simp add: elems_def set_data_simps)
    ultimately show ?thesis by blast
  qed
  have B: "\<exists>h' s'. Insert gc h ja i x = Inr (ja, h')
           \<and> seq_of (data (nodes h' ja)) = Some s'
           \<and> elems h' s' = take (nat i) (elems h s) @ [unwrap h x] @ drop (nat i) (elems h s)
           \<and> maps h' = maps h
           \<and> data (nodes h' p) = data (nodes h p)
           \<and> (\<forall>q. seq_of (data (nodes h p)) = Some q \<longrightarrow> elems h' q = elems h q)"
    if rng: "0 \<le> i \<and> i \<le> int (slen s)"
  proof -
    from insert_elems_spec[OF ok rng, of gc "unwrap h x"] obtain r h1 where
      ie: "insert_elems gc h s i (unwrap h x) = Inr (r, h1)"
      and el: "elems h1 r = take (nat i) (elems h s) @ [unwrap h x] @ drop (nat i) (elems h s)"
      and m1: "maps h1 = maps h" and nodes1: "nodes h1 = nodes h"
      and fr: "\<forall>a. a \<noteq> sarr s \<longrightarrow> a < brk h \<longrightarrow> arrays h1 a = arrays h a"
      by blast
    from Insert_seq[OF seq ie] obtain d where d: "seq_of d = Some r"
      and ins: "Insert gc h ja i x =
                 (case maintainParent (set_data h1 ja d) ja of
                    Inl e \<Rightarrow> Inl e | Inr h2 \<Rightarrow> Inr (ja, h2))" by blast
    let ?h2 = "set_data h1 ja d"
    have "Insert gc h ja i x = Inr (ja, ?h2)" using ins local[OF nodes1] by simp
    moreover have "seq_of (data (nodes ?h2 ja)) = Some r" using d by (simp add: set_data_simps)
    moreover have "elems ?h2 r = take (nat i) (elems h s) @ [unwrap h x] @ drop (nat i) (elems h s)"
      using el by (simp add: elems_def set_data_simps)
    moreover have "maps ?h2 = maps h" using m1 by (simp add: set_data_simps)
    moreover have "data (nodes ?h2 p) = data (nodes h p)"
      using neq nodes1 by (simp add: set_data_simps)
    moreover have "\<forall>q. seq_of (data (nodes h p)) = Some q \<longrightarrow> elems ?h2 q = elems h q"
    proof (intro allI impI)
      fix q assume "seq_of (data (nodes h p)) = Some q"
      from not_raw_parent_array[OF nraw apart this] fr
      have "arrays h1 (sarr q) = arrays h (sarr q)" by simp
      then show "elems ?h2 q = elems h q" by (simp add: elems_def set_data_simps)
    qed
    ultimately show ?thesis by blast
  qed
  from A B show ?thesis by blast
qed

theorem no_write_back_without_raw_parent_witness:
  "seq_of (data (nodes (snd (Get rebuilt_doc 2 ''a'')) 3)) = Some (Slice 1 0 2 2)
   \<and> slice_ok (snd (Get rebuilt_doc 2 ''a'')) (Slice 1 0 2 2)
   \<and> prev (nodes (snd (Get rebuilt_doc 2 ''a'')) 3) = Some 2
   \<and> \<not> is_raw (data (nodes (snd (Get rebuilt_doc 2 ''a'')) 2))
   \<and> list_parent_apart (snd (Get rebuilt_doc 2 ''a'')) 2 (Slice 1 0 2 2)
   \<and> (0::int) \<le> 0 \<and> (0::int) \<le> int (slen (Slice 1 0 2 2))
   \<and> (\<exists>h' s'. Append grow2 (snd (Get rebuilt_doc 2 ''a'')) 3 (VNumber ''9'') = Inr (3, h')
         \<and> seq_of (data (nodes h' 3)) = Some s'
         \<and> elems h' s' = [VNumber ''1'', VNumber ''2'', VNumber ''9'']
         \<and> maps h' 0 = [(''a'', VList (Slice 1 0 2 2))]
         \<and> data (nodes h' 2) = VDict 0
         \<and> elems h' (Slice 1 0 2 2) = [VNumber ''1'', VNumber ''2''])
   \<and> (\<exists>h' s'. Insert grow2 (snd (Get rebuilt_doc 2 ''a'')) 3 0 (VNumber ''9'') = Inr (3, h')
         \<and> seq_of (data (nodes h' 3)) = Some s'
         \<and> elems h' s' = [VNumber ''9'', VNumber ''1'', VNumber ''2'']
         \<and> maps h' 0 = [(''a'', VList (Slice 1 0 2 2))]
         \<and> data (nodes h' 2) = VDict 0)"
proof -
  let ?h = "snd (Get rebuilt_doc 2 ''a'')"
  have hyp: "seq_of (data (nodes ?h 3)) = Some (Slice 1 0 2 2)
     \<and> slice_ok ?h (Slice 1 0 2 2) \<and> prev (nodes ?h 3) = Some 2
     \<and> \<not> is_raw (data (nodes ?h 2)) \<and> list_parent_apart ?h 2 (Slice 1 0 2 2)"
    by (simp add: eval_defs rebuilt_doc_def seq_of_def slice_ok_def is_raw_def
          list_parent_apart_def)
  have rng: "(0::int) \<le> 0 \<and> (0::int) \<le> int (slen (Slice 1 0 2 2))" by simp
  have el: "elems ?h (Slice 1 0 2 2) = [VNumber ''1'', VNumber ''2'']"
    and mp: "maps ?h 0 = [(''a'', VList (Slice 1 0 2 2))]"
    and dp: "data (nodes ?h 2) = VDict 0"
    and uw: "unwrap ?h (VNumber ''9'') = VNumber ''9''"
    by (simp_all add: eval_defs rebuilt_doc_def)
  note inst = no_write_back_without_raw_parent[OF hyp, of grow2 "VNumber ''9''" 0]
  from inst have "\<exists>h' s'. Append grow2 ?h 3 (VNumber ''9'') = Inr (3, h')
         \<and> seq_of (data (nodes h' 3)) = Some s'
         \<and> elems h' s' = elems ?h (Slice 1 0 2 2) @ [unwrap ?h (unwrap ?h (VNumber ''9''))]
         \<and> maps h' = maps ?h
         \<and> data (nodes h' 2) = data (nodes ?h 2)
         \<and> elems h' (Slice 1 0 2 2) = elems ?h (Slice 1 0 2 2)"
    by blast
  then have A: "\<exists>h' s'. Append grow2 ?h 3 (VNumber ''9'') = Inr (3, h')
         \<and> seq_of (data (nodes h' 3)) = Some s'
         \<and> elems h' s' = [VNumber ''1'', VNumber ''2'', VNumber ''9'']
         \<and> maps h' 0 = [(''a'', VList (Slice 1 0 2 2))]
         \<and> data (nodes h' 2) = VDict 0
         \<and> elems h' (Slice 1 0 2 2) = [VNumber ''1'', VNumber ''2'']"
    unfolding el uw dp using mp by auto
  from inst rng have "\<exists>h' s'. Insert grow2 ?h 3 0 (VNumber ''9'') = Inr (3, h')
         \<and> seq_of (data (nodes h' 3)) = Some s'
         \<and> elems h' s' = take (nat 0) (elems ?h (Slice 1 0 2 2)) @ [unwrap ?h (VNumber ''9'')]
              @ drop (nat 0) (elems ?h (Slice 1 0 2 2))
         \<and> maps h' = maps ?h
         \<and> data (nodes h' 2) = data (nodes ?h 2)"
    by blast
  then have B: "\<exists>h' s'. Insert grow2 ?h 3 0 (VNumber ''9'') = Inr (3, h')
         \<and> seq_of (data (nodes h' 3)) = Some s'
         \<and> elems h' s' = [VNumber ''9'', VNumber ''1'', VNumber ''2'']
         \<and> maps h' 0 = [(''a'', VList (Slice 1 0 2 2))]
         \<and> data (nodes h' 2) = VDict 0"
    unfolding el uw dp using mp by auto
  from hyp rng A B show ?thesis by blast
qed

end
